theory Spec2Isabelle
  imports Main "HOL-Library.Word" "HOL-Library.Multiset"
begin

unbundle bit_operations_syntax

section \<open>Keys and packed pointers\<close>

text \<open>
  \<^verbatim>\<open>struct bkey { __u64 high; __u64 low; __u64 ptr[]; }\<close>: the header words are kept as
  their fields (offset, 16-bit size, pointer count, flags); \<open>ptr\<close> is the flexible
  array of 64-bit slots that follows the header, the slot after the last pointer being
  the checksum slot.
\<close>

record bkey =
  KEY_OFFSET :: "64 word"
  KEY_SIZE :: "16 word"
  KEY_PTRS :: nat
  KEY_DELETED :: bool
  KEY_CACHED :: bool
  KEY_CSUM :: nat
  ptr :: "nat \<Rightarrow> 64 word"

text \<open>
  Modelled from the spec: the key accessors of the key format header, which is not under
  src/. A key has a 64-bit end offset and a 16-bit size; its logical start is
  offset - size in 64-bit wrapping arithmetic.
\<close>

definition KEY_START :: "bkey \<Rightarrow> 64 word" where
  "KEY_START k = KEY_OFFSET k - ucast (KEY_SIZE k)"

text \<open>
  Modelled from the spec: \<open>KEY(offset, size)\<close>, a bare key with no pointers and no
  flags, and \<open>START_KEY\<close>, the size-0 key that sits at the start of \<open>k\<close>.
\<close>

definition KEY :: "64 word \<Rightarrow> 16 word \<Rightarrow> bkey" where
  "KEY off sz = \<lparr>KEY_OFFSET = off, KEY_SIZE = sz, KEY_PTRS = 0, KEY_DELETED = False,
     KEY_CACHED = False, KEY_CSUM = 0, ptr = (\<lambda>_. 0)\<rparr>"


definition START_KEY :: "bkey \<Rightarrow> bkey" where
  "START_KEY k = KEY (KEY_START k) 0"

text \<open>
  Modelled from the spec: \<open>bkey_cmp\<close>, the three-way comparison of two keys by their
  offset, ascending (negative, zero or positive).
\<close>

definition bkey_cmp :: "bkey \<Rightarrow> bkey \<Rightarrow> int" where
  "bkey_cmp l r = int (unat (KEY_OFFSET l)) - int (unat (KEY_OFFSET r))"

text \<open>
  Modelled from the spec: the packed pointer (device id, 8-bit generation,
  bucket + intra-bucket offset). The positions are those of the key format header, not
  under src/: generation in bits 0..7, offset in bits 8..50, device in bits 51..62.
\<close>

definition PTR :: "64 word \<Rightarrow> 64 word \<Rightarrow> 64 word \<Rightarrow> 64 word" where
  "PTR g off dev = (push_bit 51 dev OR push_bit 8 off) OR g"

definition PTR_DEV :: "bkey \<Rightarrow> nat \<Rightarrow> nat" where
  "PTR_DEV k i = unat (take_bit 12 (drop_bit 51 (ptr k i)))"

definition PTR_OFFSET :: "bkey \<Rightarrow> nat \<Rightarrow> 64 word" where
  "PTR_OFFSET k i = take_bit 43 (drop_bit 8 (ptr k i))"

definition PTR_GEN :: "bkey \<Rightarrow> nat \<Rightarrow> 8 word" where
  "PTR_GEN k i = ucast (take_bit 8 (ptr k i))"

definition SET_PTR_OFFSET :: "bkey \<Rightarrow> nat \<Rightarrow> 64 word \<Rightarrow> bkey" where
  "SET_PTR_OFFSET k i v =
     k\<lparr>ptr := (ptr k)(i := (ptr k i AND NOT (push_bit 8 (mask 43))) OR
                            push_bit 8 (take_bit 43 v))\<rparr>"

section \<open>Cutting a key\<close>

text \<open>
  Modelled from the spec: \<open>bch_cut_front\<close> and \<open>bch_cut_back\<close>, which are not under
  src/. Cut-front makes \<open>k\<close> start at \<open>w\<close>: its size shrinks to what lies beyond \<open>w\<close>
  and every pointer advances by the amount removed; a key that starts at or after \<open>w\<close>
  is left as it is. Cut-back truncates the end of \<open>k\<close> to \<open>w\<close>; a key that ends at or
  before \<open>w\<close> is left as it is. Cutting in front beyond the end of the key, or cutting
  back before its start, is a BUG; \<open>None\<close> is that failure.
\<close>

fun advance_ptrs :: "nat list \<Rightarrow> 64 word \<Rightarrow> bkey \<Rightarrow> bkey" where
  "advance_ptrs [] d k = k"
| "advance_ptrs (i # is) d k = advance_ptrs is d (SET_PTR_OFFSET k i (PTR_OFFSET k i + d))"

definition bch_cut_front :: "bkey \<Rightarrow> bkey \<Rightarrow> bkey option" where
  "bch_cut_front w k =
     (if bkey_cmp w k > 0 then None
      else if bkey_cmp w (START_KEY k) \<le> 0 then Some k
      else
        let len = (if bkey_cmp w k < 0 then KEY_OFFSET k - KEY_OFFSET w else 0);
            k1 = (if bkey_cmp w k < 0 then k else k\<lparr>KEY_OFFSET := KEY_OFFSET w\<rparr>);
            k2 = advance_ptrs [0..<KEY_PTRS k1] (ucast (KEY_SIZE k1) - len) k1
        in if unat len > unat (KEY_SIZE k2) then None
           else Some (k2\<lparr>KEY_SIZE := ucast len\<rparr>))"

definition bch_cut_back :: "bkey \<Rightarrow> bkey \<Rightarrow> bkey option" where
  "bch_cut_back w k =
     (if bkey_cmp w (START_KEY k) < 0 then None
      else if bkey_cmp w k \<ge> 0 then Some k
      else
        let len = (if bkey_cmp w (START_KEY k) > 0 then KEY_OFFSET w - KEY_START k else 0);
            k1 = k\<lparr>KEY_OFFSET := KEY_OFFSET w\<rparr>
        in if unat len > unat (KEY_SIZE k1) then None
           else Some (k1\<lparr>KEY_SIZE := ucast len\<rparr>))"

section \<open>The cache set, as far as the key algebra reads it\<close>

datatype gc_mark = GC_MARK_FREE | GC_MARK_METADATA | GC_MARK_DIRTY | GC_MARK_CACHED

record bucket =
  gen :: "8 word"
  GC_MARK :: gc_mark
  pin :: nat

record cache =
  first_bucket :: nat
  nbuckets :: nat
  buckets :: "nat \<Rightarrow> bucket"

text \<open>
  The collaborators of the key algebra: the device table (\<open>None\<close> for a slot with no
  device), the bucket geometry, the two global flags, whether the garbage collector's
  marks are valid, and whether \<open>mutex_trylock\<close> on the bucket lock succeeds.
\<close>

record cache_set =
  cache_tab :: "nat \<Rightarrow> cache option"
  bucket_size :: nat
  bucket_bits :: nat
  expensive_debug_checks :: bool
  key_merging_disabled :: bool
  gc_mark_valid :: bool
  bucket_trylock :: bool

definition MAX_CACHES_PER_SET :: nat where
  "MAX_CACHES_PER_SET = 8"

text \<open>
  Modelled from the spec: the pointer accessors of the cache-set header, not under src/:
  the device a pointer names, its bucket number (offset shifted by the bucket bits), the
  remainder inside the bucket, availability (the device slot exists and is populated),
  and the staleness distance (bucket.generation - pointer.generation) mod 256.
\<close>

definition PTR_CACHE :: "cache_set \<Rightarrow> bkey \<Rightarrow> nat \<Rightarrow> cache option" where
  "PTR_CACHE c k i = cache_tab c (PTR_DEV k i)"

definition PTR_BUCKET_NR :: "cache_set \<Rightarrow> bkey \<Rightarrow> nat \<Rightarrow> nat" where
  "PTR_BUCKET_NR c k i = unat (drop_bit (bucket_bits c) (PTR_OFFSET k i))"

definition bucket_remainder :: "cache_set \<Rightarrow> 64 word \<Rightarrow> nat" where
  "bucket_remainder c s = unat (s AND (of_nat (bucket_size c) - 1))"

definition ptr_available :: "cache_set \<Rightarrow> bkey \<Rightarrow> nat \<Rightarrow> bool" where
  "ptr_available c k i = (PTR_DEV k i < MAX_CACHES_PER_SET \<and> PTR_CACHE c k i \<noteq> None)"

definition PTR_BUCKET :: "cache_set \<Rightarrow> bkey \<Rightarrow> nat \<Rightarrow> bucket option" where
  "PTR_BUCKET c k i = map_option (\<lambda>ca. buckets ca (PTR_BUCKET_NR c k i)) (PTR_CACHE c k i)"

definition ptr_stale :: "cache_set \<Rightarrow> bkey \<Rightarrow> nat \<Rightarrow> nat option" where
  "ptr_stale c k i = map_option (\<lambda>g. unat (gen g - PTR_GEN k i)) (PTR_BUCKET c k i)"

section \<open>Validity of extents\<close>

text \<open>
  The diagnostic channel: \<open>cache_bug\<close> and \<open>btree_bug\<close> record an inconsistency and
  return; the reports of a call are returned with its result, in the order they are made.
\<close>

datatype report =
  Spotted_extent
| Key_too_stale nat
| Stale_dirty_pointer
| Inconsistent_extent_pointer nat

fun ptr_invalid_loop :: "cache_set \<Rightarrow> bkey \<Rightarrow> nat list \<Rightarrow> bool" where
  "ptr_invalid_loop c k [] = False"
| "ptr_invalid_loop c k (i # is) =
     (case (if ptr_available c k i then PTR_CACHE c k i else None) of
        None \<Rightarrow> ptr_invalid_loop c k is
      | Some ca \<Rightarrow>
          let bucket = PTR_BUCKET_NR c k i;
              r = bucket_remainder c (PTR_OFFSET k i)
          in if unat (KEY_SIZE k) + r > bucket_size c \<or>
                bucket < first_bucket ca \<or>
                bucket \<ge> nbuckets ca
             then True
             else ptr_invalid_loop c k is)"

definition ptr_invalid :: "cache_set \<Rightarrow> bkey \<Rightarrow> bool" where
  "ptr_invalid c k = ptr_invalid_loop c k [0..<KEY_PTRS k]"

definition bch_extent_invalid :: "cache_set \<Rightarrow> bkey \<Rightarrow> bool \<times> report list" where
  "bch_extent_invalid c k =
     (if KEY_SIZE k = 0 then (True, [])
      else if unat (KEY_SIZE k) > unat (KEY_OFFSET k) then (True, [Spotted_extent])
      else if ptr_invalid c k then (True, [Spotted_extent])
      else (False, []))"

text \<open>\<open>None\<close> is the dereference of a device slot that holds no device.\<close>

definition bch_extent_bad_expensive ::
  "cache_set \<Rightarrow> bkey \<Rightarrow> nat \<Rightarrow> (bool \<times> report list) option" where
  "bch_extent_bad_expensive c k p =
     (case PTR_BUCKET c k p of
        None \<Rightarrow> None
      | Some g \<Rightarrow>
          if bucket_trylock c \<and>
             gc_mark_valid c \<and>
             ((GC_MARK g \<noteq> GC_MARK_DIRTY \<and> \<not> KEY_CACHED k) \<or>
              GC_MARK g = GC_MARK_METADATA)
          then Some (True, [Inconsistent_extent_pointer p])
          else Some (False, []))"

definition with_reports ::
  "report list \<Rightarrow> (bool \<times> report list) option \<Rightarrow> (bool \<times> report list) option" where
  "with_reports rs res = map_option (\<lambda>(b, rs'). (b, rs @ rs')) res"

fun extent_bad_loop :: "cache_set \<Rightarrow> bkey \<Rightarrow> nat list \<Rightarrow> (bool \<times> report list) option" where
  "extent_bad_loop c k [] = Some (False, [])"
| "extent_bad_loop c k (i # is) =
     (case ptr_stale c k i of
        None \<Rightarrow> None
      | Some stale \<Rightarrow>
          let rs = (if stale > 96 then [Key_too_stale stale] else []) @
                   (if stale \<noteq> 0 \<and> \<not> KEY_CACHED k \<and> KEY_SIZE k \<noteq> 0
                    then [Stale_dirty_pointer] else [])
          in if stale \<noteq> 0 then Some (True, rs)
             else if expensive_debug_checks c then
               (case bch_extent_bad_expensive c k i of
                  None \<Rightarrow> None
                | Some (bad, rs') \<Rightarrow>
                    if bad then Some (True, rs @ rs')
                    else with_reports (rs @ rs') (extent_bad_loop c k is))
             else with_reports rs (extent_bad_loop c k is))"

definition bch_extent_bad :: "cache_set \<Rightarrow> bkey \<Rightarrow> (bool \<times> report list) option" where
  "bch_extent_bad c k =
     (if KEY_DELETED k \<or> KEY_PTRS k = 0 then Some (True, [])
      else
        case bch_extent_invalid c k of
          (True, rs) \<Rightarrow> Some (True, rs)
        | (False, rs) \<Rightarrow>
            if list_ex (\<lambda>i. \<not> ptr_available c k i) [0..<KEY_PTRS k] then Some (True, rs)
            else if \<not> expensive_debug_checks c \<and> \<not> KEY_CACHED k then Some (False, rs)
            else with_reports rs (extent_bad_loop c k [0..<KEY_PTRS k]))"

section \<open>Merging adjacent extents\<close>

definition USHRT_MAX :: nat where
  "USHRT_MAX = 65535"

definition merge_chksums :: "bkey \<Rightarrow> bkey \<Rightarrow> 64 word" where
  "merge_chksums l r = (ptr l (KEY_PTRS l) + ptr r (KEY_PTRS r)) AND NOT (push_bit 63 1)"

text \<open>
  The result is the returned flag with the two keys as the call leaves them; \<open>None\<close> is
  a BUG inside \<open>bch_cut_front\<close>.
\<close>

definition bch_extent_merge :: "cache_set \<Rightarrow> bkey \<Rightarrow> bkey \<Rightarrow> (bool \<times> bkey \<times> bkey) option" where
  "bch_extent_merge c l r =
     (if key_merging_disabled c then Some (False, l, r)
      else if KEY_PTRS l \<noteq> KEY_PTRS r \<or>
              KEY_DELETED l \<noteq> KEY_DELETED r \<or>
              KEY_CACHED l \<noteq> KEY_CACHED r \<or>
              bkey_cmp l (START_KEY r) \<noteq> 0 then Some (False, l, r)
      else if list_ex (\<lambda>i. ptr l i + PTR 0 (ucast (KEY_SIZE l)) 0 \<noteq> ptr r i \<or>
                            PTR_BUCKET_NR c l i \<noteq> PTR_BUCKET_NR c r i) [0..<KEY_PTRS l]
           then Some (False, l, r)
      else if unat (KEY_SIZE l) + unat (KEY_SIZE r) > USHRT_MAX then
        let l1 = l\<lparr>KEY_OFFSET := KEY_OFFSET l + of_nat USHRT_MAX - ucast (KEY_SIZE l)\<rparr>;
            l2 = l1\<lparr>KEY_SIZE := of_nat USHRT_MAX\<rparr>
        in map_option (\<lambda>r'. (False, l2, r')) (bch_cut_front l2 r)
      else
        let l1 = (if KEY_CSUM l \<noteq> 0 then
                    (if KEY_CSUM r \<noteq> 0
                     then l\<lparr>ptr := (ptr l)(KEY_PTRS l := merge_chksums l r)\<rparr>
                     else l\<lparr>KEY_CSUM := 0\<rparr>)
                  else l);
            l2 = l1\<lparr>KEY_OFFSET := KEY_OFFSET l1 + ucast (KEY_SIZE r)\<rparr>;
            l3 = l2\<lparr>KEY_SIZE := KEY_SIZE l2 + KEY_SIZE r\<rparr>
        in Some (True, l3, r))"

section \<open>Example inputs\<close>

text \<open>
  One cache device of 1024 buckets of 1024 sectors; bucket 0 is at generation 10, every
  other bucket at generation 107.
\<close>

definition ex_cache :: cache where
  "ex_cache = \<lparr>first_bucket = 0, nbuckets = 1024,
      buckets = (\<lambda>n. \<lparr>gen = (if n = 0 then 10 else 107), GC_MARK = GC_MARK_CACHED, pin = 0\<rparr>)\<rparr>"

definition ex_cache_set :: "bool \<Rightarrow> cache_set" where
  "ex_cache_set expensive = \<lparr>cache_tab = (\<lambda>d. if d = 0 then Some ex_cache else None),
      bucket_size = 1024, bucket_bits = 10, expensive_debug_checks = expensive,
      key_merging_disabled = False, gc_mark_valid = True, bucket_trylock = True\<rparr>"

text \<open>An extent of 8 sectors ending at 100, with the one pointer \<open>p\<close>.\<close>

definition ex_extent :: "bool \<Rightarrow> 64 word \<Rightarrow> bkey" where
  "ex_extent cached p = \<lparr>KEY_OFFSET = 100, KEY_SIZE = 8, KEY_PTRS = 1, KEY_DELETED = False,
      KEY_CACHED = cached, KEY_CSUM = 0, ptr = (\<lambda>_. p)\<rparr>"

text \<open>A pointerless extent \<open>[off - sz, off)\<close> whose checksum slot holds \<open>cs\<close>.\<close>

definition ex_bare :: "64 word \<Rightarrow> 16 word \<Rightarrow> nat \<Rightarrow> 64 word \<Rightarrow> bkey" where
  "ex_bare off sz csum cs = \<lparr>KEY_OFFSET = off, KEY_SIZE = sz, KEY_PTRS = 0, KEY_DELETED = False,
      KEY_CACHED = False, KEY_CSUM = csum, ptr = (\<lambda>_. cs)\<rparr>"

lemmas ex_defs = ex_cache_def ex_cache_set_def ex_extent_def ex_bare_def

lemmas ptr_defs = ptr_stale_def PTR_BUCKET_def PTR_CACHE_def PTR_DEV_def PTR_def
  PTR_BUCKET_NR_def PTR_OFFSET_def PTR_GEN_def ptr_available_def bucket_remainder_def
  MAX_CACHES_PER_SET_def

section \<open>Facts about keys\<close>

lemma unat_ucast_16_64 [simp]: "unat (ucast (s::16 word) :: 64 word) = unat s"
  by (simp add: unsigned_ucast_eq take_bit_nat_eq_self
      less_trans[OF unsigned_less[of s, simplified]])

lemma unat_size_lt: "unat (s::16 word) < 65536"
  using unsigned_less[of s] by simp

lemma unat_off_lt: "unat (s::64 word) < 18446744073709551616"
  using unsigned_less[of s] by simp

lemma unat_ucast_64_16: "unat (x::64 word) < 65536 \<Longrightarrow> unat (ucast x :: 16 word) = unat x"
  by (simp add: unsigned_ucast_eq take_bit_nat_eq_self)

lemma unat_add_nat: "unat (x::64 word) + n < 2^64 \<Longrightarrow> unat (x + of_nat n) = unat x + n"
  by (subst unat_add_lem[THEN iffD1]) (simp_all add: unat_of_nat take_bit_nat_eq_self)

lemma unat_KEY_START:
  "unat (KEY_SIZE k) \<le> unat (KEY_OFFSET k) \<Longrightarrow>
   unat (KEY_START k) = unat (KEY_OFFSET k) - unat (KEY_SIZE k)"
  unfolding KEY_START_def
  by (subst unat_sub) (simp_all add: word_le_nat_alt)

lemma bkey_cmp_simps:
  "bkey_cmp a b > 0 \<longleftrightarrow> unat (KEY_OFFSET a) > unat (KEY_OFFSET b)"
  "bkey_cmp a b < 0 \<longleftrightarrow> unat (KEY_OFFSET a) < unat (KEY_OFFSET b)"
  "bkey_cmp a b \<le> 0 \<longleftrightarrow> unat (KEY_OFFSET a) \<le> unat (KEY_OFFSET b)"
  "bkey_cmp a b \<ge> 0 \<longleftrightarrow> unat (KEY_OFFSET a) \<ge> unat (KEY_OFFSET b)"
  "bkey_cmp a b = 0 \<longleftrightarrow> KEY_OFFSET a = KEY_OFFSET b"
  "bkey_cmp a b \<noteq> 0 \<longleftrightarrow> KEY_OFFSET a \<noteq> KEY_OFFSET b"
  unfolding bkey_cmp_def by (auto simp del: of_nat_unat simp: word_unat_eq_iff)

lemma KEY_OFFSET_START_KEY [simp]: "KEY_OFFSET (START_KEY k) = KEY_START k"
  by (simp add: START_KEY_def KEY_def)

lemma take_bit_PTR_OFFSET [simp]: "take_bit 43 (PTR_OFFSET k i) = PTR_OFFSET k i"
  by (simp add: PTR_OFFSET_def)

lemma PTR_OFFSET_SET:
  "PTR_OFFSET (SET_PTR_OFFSET k i v) j = (if j = i then take_bit 43 v else PTR_OFFSET k j)"
  unfolding PTR_OFFSET_def SET_PTR_OFFSET_def
  apply simp
  apply (rule impI)
  apply (rule bit_word_eqI)
  apply (auto simp: bit_simps)
  done

lemma hdr_SET_PTR_OFFSET [simp]:
  "KEY_OFFSET (SET_PTR_OFFSET k i v) = KEY_OFFSET k"
  "KEY_SIZE (SET_PTR_OFFSET k i v) = KEY_SIZE k"
  "KEY_PTRS (SET_PTR_OFFSET k i v) = KEY_PTRS k"
  "KEY_DELETED (SET_PTR_OFFSET k i v) = KEY_DELETED k"
  "KEY_CACHED (SET_PTR_OFFSET k i v) = KEY_CACHED k"
  "KEY_CSUM (SET_PTR_OFFSET k i v) = KEY_CSUM k"
  by (simp_all add: SET_PTR_OFFSET_def)

lemma hdr_advance_ptrs [simp]:
  "KEY_OFFSET (advance_ptrs is d k) = KEY_OFFSET k"
  "KEY_SIZE (advance_ptrs is d k) = KEY_SIZE k"
  "KEY_PTRS (advance_ptrs is d k) = KEY_PTRS k"
  "KEY_DELETED (advance_ptrs is d k) = KEY_DELETED k"
  "KEY_CACHED (advance_ptrs is d k) = KEY_CACHED k"
  "KEY_CSUM (advance_ptrs is d k) = KEY_CSUM k"
  by (induction "is" arbitrary: k; simp)+

lemma PTR_OFFSET_advance:
  "distinct is \<Longrightarrow> PTR_OFFSET (advance_ptrs is d k) j =
    (if j \<in> set is then take_bit 43 (PTR_OFFSET k j + d) else PTR_OFFSET k j)"
  by (induction "is" arbitrary: k) (auto simp: PTR_OFFSET_SET)

lemma not_bit63: "NOT (push_bit 63 (1::64 word)) = mask 63"
  by (simp add: mask_eq_exp_minus_1)

lemma and_not_bit63_less: "unat ((x::64 word) AND NOT (push_bit 63 1)) < 2 ^ 63"
proof -
  have "x AND NOT (push_bit 63 1) = take_bit 63 x"
    unfolding not_bit63 by (simp add: take_bit_eq_mask)
  moreover have "take_bit 63 (unat x) < 2 ^ 63"
    by (rule take_bit_nat_less_exp)
  ultimately show ?thesis
    by (simp only: unsigned_take_bit_eq)
qed

section \<open>Facts about the validity check\<close>

lemma avail_bucket: "ptr_available c k i \<Longrightarrow> \<exists>g. PTR_BUCKET c k i = Some g"
  by (auto simp: ptr_available_def PTR_BUCKET_def)

lemma avail_stale: "ptr_available c k i \<Longrightarrow> \<exists>d. ptr_stale c k i = Some d"
  by (auto simp: ptr_stale_def dest: avail_bucket)

lemma avail_expensive:
  "ptr_available c k i \<Longrightarrow>
   bch_extent_bad_expensive c k i = Some (False, []) \<or>
   bch_extent_bad_expensive c k i = Some (True, [Inconsistent_extent_pointer i])"
  using avail_bucket[of c k i]
  by (auto simp: bch_extent_bad_expensive_def split: if_splits)

lemma with_reports_Some [simp]: "with_reports rs (Some (b, rs')) = Some (b, rs @ rs')"
  by (simp add: with_reports_def)

text \<open>
  Once every pointer is available, the pointer loop of \<open>bch_extent_bad\<close> answers "bad"
  as soon as some pointer is stale: it either stops at an earlier pointer or reaches it.
\<close>

lemma loop_stale_bad:
  "\<forall>i\<in>set is. ptr_available c k i \<Longrightarrow> \<exists>i\<in>set is. ptr_stale c k i \<noteq> Some 0 \<Longrightarrow>
   \<exists>rs. extent_bad_loop c k is = Some (True, rs)"
proof (induction "is")
  case Nil
  then show ?case by simp
next
  case (Cons i "is")
  from Cons.prems(1) obtain d where d: "ptr_stale c k i = Some d"
    using avail_stale by fastforce
  show ?case
  proof (cases "d = 0")
    case False
    then show ?thesis using d by (simp add: Let_def)
  next
    case True
    with d Cons.prems have "\<exists>i\<in>set is. ptr_stale c k i \<noteq> Some 0" by auto
    with Cons.IH Cons.prems(1) obtain rs where rs: "extent_bad_loop c k is = Some (True, rs)"
      by auto
    from Cons.prems(1) avail_expensive[of c k i]
    show ?thesis using d True rs by (auto simp: Let_def)
  qed
qed

lemma loop_stale_dirty:
  "\<forall>i\<in>set is. ptr_available c k i \<Longrightarrow> \<exists>i\<in>set is. ptr_stale c k i \<noteq> Some 0 \<Longrightarrow>
   \<not> KEY_CACHED k \<Longrightarrow> KEY_SIZE k \<noteq> 0 \<Longrightarrow>
   \<exists>rs. extent_bad_loop c k is = Some (True, rs) \<and>
      (Stale_dirty_pointer \<in> set rs \<or> (\<exists>p. Inconsistent_extent_pointer p \<in> set rs))"
proof (induction "is")
  case Nil
  then show ?case by simp
next
  case (Cons i "is")
  from Cons.prems(1) obtain d where d: "ptr_stale c k i = Some d"
    using avail_stale by fastforce
  show ?case
  proof (cases "d = 0")
    case False
    then show ?thesis using d Cons.prems by (simp add: Let_def)
  next
    case True
    with d Cons.prems have "\<exists>i\<in>set is. ptr_stale c k i \<noteq> Some 0" by auto
    with Cons.IH Cons.prems obtain rs where rs: "extent_bad_loop c k is = Some (True, rs)"
      "Stale_dirty_pointer \<in> set rs \<or> (\<exists>p. Inconsistent_extent_pointer p \<in> set rs)"
      by auto
    from Cons.prems(1) avail_expensive[of c k i]
    show ?thesis using d True rs by (auto simp: Let_def)
  qed
qed

lemma ex_stale_1: "ptr_stale (ex_cache_set e) (ex_extent ca (PTR 9 0 0)) 0 = Some 1"
  by (simp add: ptr_defs ex_defs)

lemma ex_stale_97: "ptr_stale (ex_cache_set e) (ex_extent ca (PTR 10 1024 0)) 0 = Some 97"
  by (simp add: ptr_defs ex_defs)

section \<open>Runs, cursors and the heap of cursors\<close>

text \<open>
  The keys of a btree node lie in one array, run after run, oldest run first; a key is
  named by its index, so that \<open>l.k < r.k\<close> on two key addresses says that \<open>l\<close> is the
  older key. \<open>bkey_next\<close> is the next index. Reading an address outside the array is a
  fault (\<open>None\<close>).
\<close>

record btree_iter_set =
  set_k :: nat
  set_end :: nat

definition key_at :: "bkey list \<Rightarrow> nat \<Rightarrow> bkey option" where
  "key_at m p = (if p < length m then Some (m ! p) else None)"


definition bch_extent_sort_cmp ::
  "bkey list \<Rightarrow> btree_iter_set \<Rightarrow> btree_iter_set \<Rightarrow> bool option" where
  "bch_extent_sort_cmp m l r =
     (case (key_at m (set_k l), key_at m (set_k r)) of
        (Some lk, Some rk) \<Rightarrow>
          let c = bkey_cmp (START_KEY lk) (START_KEY rk)
          in Some (if c \<noteq> 0 then c > 0 else set_k l < set_k r)
      | _ \<Rightarrow> None)"

text \<open>
  \<^verbatim>\<open>struct btree_iter { size_t used; struct btree_iter_set data[]; }\<close> is the list of its
  \<open>used\<close> live entries: \<open>iter->used\<close> is the length of the list, and the entries beyond
  it are never read.

  Modelled from the spec: \<open>heap_sift\<close>, the re-sift of the min-heap of cursors, which is
  not under src/: the entry at position \<open>j\<close> sinks below its smaller child until no child
  is smaller.
\<close>

function heap_sift :: "('a \<Rightarrow> 'a \<Rightarrow> bool option) \<Rightarrow> 'a list \<Rightarrow> nat \<Rightarrow> 'a list option" where
  "heap_sift cmp h j =
     (if j * 2 + 1 < length h then
        (case (if j * 2 + 2 < length h then cmp (h ! (j * 2 + 1)) (h ! (j * 2 + 2))
               else Some False) of
           None \<Rightarrow> None
         | Some b \<Rightarrow>
             let r = (if b then j * 2 + 2 else j * 2 + 1)
             in (case cmp (h ! r) (h ! j) of
                   None \<Rightarrow> None
                 | Some stop \<Rightarrow>
                     if stop then Some h
                     else heap_sift cmp (h[r := h ! j, j := h ! r]) r))
      else Some h)"
  by pat_completeness auto
termination
  by (relation "measure (\<lambda>(cmp, h, j). length h - j)") (auto split: if_splits)

declare heap_sift.simps [simp del]

text \<open>
  \<open>sort_key_next\<close>: the cursor at position \<open>i\<close> moves to its next key; a cursor that
  reaches the end of its run is replaced by the last entry of the heap, which shrinks.
\<close>

definition sort_key_next :: "btree_iter_set list \<Rightarrow> nat \<Rightarrow> btree_iter_set list" where
  "sort_key_next iter i =
     (let s = (iter ! i)\<lparr>set_k := set_k (iter ! i) + 1\<rparr>
      in if set_k s = set_end s then butlast (iter[i := last iter])
         else iter[i := s])"

subsection \<open>Termination measures\<close>

definition cursor_room :: "bkey list \<Rightarrow> btree_iter_set list \<Rightarrow> nat" where
  "cursor_room m iter = sum_list (map (\<lambda>s. length m - set_k s) iter)"

definition key_room :: "bkey list \<Rightarrow> nat" where
  "key_room m = sum_list (map (\<lambda>k. unat (KEY_SIZE k) + unat (KEY_OFFSET k)) m)"

lemma heap_sift_mset: "heap_sift cmp h j = Some h' \<Longrightarrow> mset h' = mset h"
proof (induction cmp h j arbitrary: h' rule: heap_sift.induct)
  case (1 cmp h j)
  show ?case
  proof (cases "j * 2 + 1 < length h")
    case False
    with "1.prems" show ?thesis by (simp add: heap_sift.simps[of cmp h j])
  next
    case True
    obtain b where b: "(if j * 2 + 2 < length h then cmp (h ! (j * 2 + 1)) (h ! (j * 2 + 2))
               else Some False) = Some b"
      using "1.prems" True
      by (cases "(if j * 2 + 2 < length h then cmp (h ! (j * 2 + 1)) (h ! (j * 2 + 2))
               else Some False)") (auto simp: heap_sift.simps[of cmp h j])
    define r where "r = (if b then j * 2 + 2 else j * 2 + 1)"
    have rl: "r < length h" "j < length h"
      using True b by (auto simp: r_def split: if_splits)
    obtain stop where stop: "cmp (h ! r) (h ! j) = Some stop"
      using "1.prems" True b
      by (cases "cmp (h ! r) (h ! j)") (auto simp: heap_sift.simps[of cmp h j] r_def)
    show ?thesis
    proof (cases stop)
      case True
      then show ?thesis
        using "1.prems" \<open>j * 2 + 1 < length h\<close> b stop
        by (auto simp: heap_sift.simps[of cmp h j] r_def)
    next
      case False
      then have "heap_sift cmp (h[r := h ! j, j := h ! r]) r = Some h'"
        using "1.prems" True b stop by (auto simp: heap_sift.simps[of cmp h j] r_def)
      from "1.IH"[OF True b r_def stop False this]
      show ?thesis using rl by (simp add: mset_swap)
    qed
  qed
qed

lemma sum_list_mset_cong: "mset xs = mset ys \<Longrightarrow> sum_list (map f xs) = sum_list (map (f::'a \<Rightarrow> nat) ys)"
  by (metis mset_map sum_mset_sum_list)

lemma heap_sift_room: "heap_sift cmp h j = Some h' \<Longrightarrow> cursor_room m h' = cursor_room m h"
  unfolding cursor_room_def by (rule sum_list_mset_cong) (rule heap_sift_mset)

lemma mset_butlast: "xs \<noteq> [] \<Longrightarrow> mset (butlast xs) = mset xs - {#last xs#}"
proof -
  assume "xs \<noteq> []"
  then have "mset xs = mset (butlast xs @ [last xs])" by simp
  then show ?thesis by (simp del: append_butlast_last_id)
qed

lemma mset_sort_key_next:
  assumes "i < length iter"
  shows "mset (sort_key_next iter i) =
     (if set_k (iter ! i) + 1 = set_end (iter ! i) then mset iter - {#iter ! i#}
      else add_mset ((iter ! i)\<lparr>set_k := set_k (iter ! i) + 1\<rparr>) (mset iter - {#iter ! i#}))"
proof -
  have ne: "iter \<noteq> []" using assms by auto
  have "last (iter[i := last iter]) = last iter"
    using assms ne by (cases "i = length iter - 1") (simp_all add: last_list_update last_conv_nth)
  then have "mset (butlast (iter[i := last iter])) = mset iter - {#iter ! i#}"
    using assms ne by (simp add: mset_butlast mset_update)
  then show ?thesis
    using assms by (simp add: sort_key_next_def Let_def mset_update)
qed

lemma sum_list_remove1:
  "x \<in># mset xs \<Longrightarrow> sum_list (map f xs) = (f x :: nat) + sum_mset (image_mset f (mset xs - {#x#}))"
  by (metis insert_DiffM mset_map sum_mset.insert sum_mset_sum_list image_mset_add_mset)

lemma sort_key_next_room:
  assumes "i < length iter" "set_k (iter ! i) < length m"
  shows "cursor_room m (sort_key_next iter i) < cursor_room m iter"
proof -
  let ?f = "\<lambda>s. length m - set_k s"
  have mem: "iter ! i \<in># mset iter" using assms by simp
  have a: "cursor_room m iter = ?f (iter ! i) + sum_mset (image_mset ?f (mset iter - {#iter ! i#}))"
    unfolding cursor_room_def by (rule sum_list_remove1[OF mem])
  have b: "cursor_room m (sort_key_next iter i) = sum_mset (image_mset ?f (mset (sort_key_next iter i)))"
    unfolding cursor_room_def by (metis mset_map sum_mset_sum_list)
  show ?thesis
    unfolding a b mset_sort_key_next[OF assms(1)] using assms(2) by auto
qed

lemma key_room_update:
  assumes "p < length m"
    and "unat (KEY_SIZE k') + unat (KEY_OFFSET k') < unat (KEY_SIZE (m ! p)) + unat (KEY_OFFSET (m ! p))"
  shows "key_room (m[p := k']) < key_room m"
proof -
  let ?f = "\<lambda>k. unat (KEY_SIZE k) + unat (KEY_OFFSET k)"
  have "?f (m ! p) \<le> sum_list (map ?f m)"
    using assms(1) by (intro member_le_sum_list) (auto simp: image_iff intro!: bexI[of _ "m ! p"])
  then show ?thesis
    using assms unfolding key_room_def
    by (simp add: map_update sum_list_update)
qed

lemma cursor_room_update [simp]: "cursor_room (m[p := k']) iter = cursor_room m iter"
  by (simp add: cursor_room_def)

lemma cut_front_room:
  assumes "bch_cut_front w k = Some k'"
    and "\<not> bkey_cmp w (START_KEY k) \<le> 0" and "bkey_cmp w k < 0"
  shows "unat (KEY_SIZE k') + unat (KEY_OFFSET k') < unat (KEY_SIZE k) + unat (KEY_OFFSET k)"
proof -
  define len where "len = KEY_OFFSET k - KEY_OFFSET w"
  have wk: "unat (KEY_OFFSET w) < unat (KEY_OFFSET k)"
    using assms(3) by (simp add: bkey_cmp_simps)
  have ws: "unat (KEY_START k) < unat (KEY_OFFSET w)"
    using assms(2) by (simp add: bkey_cmp_simps)
  have ulen: "unat len = unat (KEY_OFFSET k) - unat (KEY_OFFSET w)"
    unfolding len_def using wk by (subst unat_sub) (simp_all add: word_le_nat_alt)
  have le: "unat len \<le> unat (KEY_SIZE k)" and k': "k' = (advance_ptrs [0..<KEY_PTRS k] (ucast (KEY_SIZE k) - len) k)\<lparr>KEY_SIZE := ucast len\<rparr>"
    using assms wk by (auto simp: bch_cut_front_def bkey_cmp_simps Let_def len_def split: if_splits)
  have "unat len \<noteq> unat (KEY_SIZE k)"
  proof
    assume eq: "unat len = unat (KEY_SIZE k)"
    then have "unat (KEY_SIZE k) \<le> unat (KEY_OFFSET k)" using ulen by simp
    from unat_KEY_START[OF this] eq ulen wk ws show False by simp
  qed
  with le have "unat len < unat (KEY_SIZE k)" by simp
  moreover have "unat (ucast len :: 16 word) = unat len"
    using le unat_size_lt[of "KEY_SIZE k"] by (intro unat_ucast_64_16) simp
  ultimately show ?thesis by (simp add: k')
qed

lemma cut_back_room:
  assumes "bch_cut_back w k = Some k'" and "bkey_cmp w k < 0"
  shows "unat (KEY_SIZE k') + unat (KEY_OFFSET k') < unat (KEY_SIZE k) + unat (KEY_OFFSET k)"
proof -
  define len where "len = (if bkey_cmp w (START_KEY k) > 0 then KEY_OFFSET w - KEY_START k else 0)"
  have wk: "unat (KEY_OFFSET w) < unat (KEY_OFFSET k)"
    using assms(2) by (simp add: bkey_cmp_simps)
  have le: "unat len \<le> unat (KEY_SIZE k)" and k': "k' = k\<lparr>KEY_OFFSET := KEY_OFFSET w, KEY_SIZE := ucast len\<rparr>"
    using assms wk by (auto simp: bch_cut_back_def bkey_cmp_simps Let_def len_def split: if_splits)
  have "unat (ucast len :: 16 word) = unat len"
    using le unat_size_lt[of "KEY_SIZE k"] by (intro unat_ucast_64_16) simp
  then show ?thesis using le wk by (simp add: k')
qed

section \<open>The fixup of extents\<close>

text \<open>
  The state is the key array with the heap of cursors; \<open>None\<close> is a fault or a BUG.
\<close>

function bch_extent_sort_fixup ::
  "bkey list \<times> btree_iter_set list \<Rightarrow> (bkey list \<times> btree_iter_set list) option" where
  "bch_extent_sort_fixup (m, iter) =
     (if length iter > 1 then
        (case (if length iter > 2 then bch_extent_sort_cmp m (iter ! 1) (iter ! 2)
               else Some False) of
           None \<Rightarrow> None
         | Some b \<Rightarrow>
             let i = (if b then 2 else 1)
             in (case (key_at m (set_k (iter ! 0)), key_at m (set_k (iter ! i))) of
                   (Some tk, Some ik) \<Rightarrow>
                     if bkey_cmp tk (START_KEY ik) \<le> 0 then Some (m, iter)
                     else if KEY_SIZE ik = 0 then
                       (case heap_sift (bch_extent_sort_cmp m) (sort_key_next iter i) i of
                          None \<Rightarrow> None
                        | Some iter' \<Rightarrow> bch_extent_sort_fixup (m, iter'))
                     else if set_k (iter ! 0) > set_k (iter ! i) then
                       (if bkey_cmp tk ik \<ge> 0 then
                          (case heap_sift (bch_extent_sort_cmp m) (sort_key_next iter i) i of
                             None \<Rightarrow> None
                           | Some iter' \<Rightarrow> bch_extent_sort_fixup (m, iter'))
                        else
                          (case bch_cut_front tk ik of
                             None \<Rightarrow> None
                           | Some ik' \<Rightarrow>
                               let m' = m[set_k (iter ! i) := ik']
                               in (case heap_sift (bch_extent_sort_cmp m') iter i of
                                     None \<Rightarrow> None
                                   | Some iter' \<Rightarrow> bch_extent_sort_fixup (m', iter'))))
                     else
                       (if bkey_cmp (START_KEY tk) (START_KEY ik) = 0 then None
                        else
                          (case bch_cut_back (START_KEY ik) tk of
                             None \<Rightarrow> None
                           | Some tk' \<Rightarrow>
                               bch_extent_sort_fixup (m[set_k (iter ! 0) := tk'], iter)))
                 | _ \<Rightarrow> None))
      else Some (m, iter))"
  by pat_completeness auto

definition fixup_rel :: "((bkey list \<times> btree_iter_set list) \<times> (bkey list \<times> btree_iter_set list)) set" where
  "fixup_rel = inv_image (less_than <*lex*> less_than) (\<lambda>(m, iter). (cursor_room m iter, key_room m))"

lemma wf_fixup_rel: "wf fixup_rel"
  unfolding fixup_rel_def by (intro wf_inv_image wf_lex_prod wf_less_than)

lemma key_at_Some: "key_at m p = Some k \<longleftrightarrow> p < length m \<and> k = m ! p"
  by (auto simp: key_at_def)

lemma fixup_rel_drop:
  assumes "heap_sift cmp (sort_key_next iter i) j = Some iter'"
    and "i < length iter" and "Some ik = key_at m (set_k (iter ! i))"
  shows "((m, iter'), (m, iter)) \<in> fixup_rel"
  using heap_sift_room[OF assms(1), of m] sort_key_next_room[OF assms(2), of m] assms(3)[symmetric]
  by (simp add: fixup_rel_def key_at_Some)

lemma fixup_rel_cut_front:
  assumes "heap_sift cmp iter j = Some iter'"
    and "Some ik = key_at m p" and "bch_cut_front tk ik = Some ik'"
    and "\<not> bkey_cmp tk (START_KEY ik) \<le> 0" and "\<not> bkey_cmp tk ik \<ge> 0"
  shows "((m[p := ik'], iter'), (m, iter)) \<in> fixup_rel"
proof -
  have "key_room (m[p := ik']) < key_room m"
    using assms(2)[symmetric] cut_front_room[OF assms(3,4)] assms(5)
    by (intro key_room_update) (auto simp: key_at_Some)
  then show ?thesis
    using heap_sift_room[OF assms(1), of "m[p := ik']"] by (simp add: fixup_rel_def)
qed

lemma fixup_rel_cut_back:
  assumes "Some tk = key_at m p" and "bch_cut_back (START_KEY ik) tk = Some tk'"
    and "\<not> bkey_cmp tk (START_KEY ik) \<le> 0"
  shows "((m[p := tk'], iter), (m, iter)) \<in> fixup_rel"
proof -
  have "bkey_cmp (START_KEY ik) tk < 0"
    using assms(3) by (simp add: bkey_cmp_simps)
  from cut_back_room[OF assms(2) this] have "key_room (m[p := tk']) < key_room m"
    using assms(1)[symmetric] by (intro key_room_update) (auto simp: key_at_Some)
  then show ?thesis by (simp add: fixup_rel_def)
qed

termination bch_extent_sort_fixup
proof (relation fixup_rel)
  show "wf fixup_rel" by (rule wf_fixup_rel)
qed (auto intro: fixup_rel_drop fixup_rel_cut_front fixup_rel_cut_back split: if_splits)

declare bch_extent_sort_fixup.simps [simp del]

text \<open>One turn of the loop, read off the code: how a call continues.\<close>

lemma fixup_cases [consumes 0, case_names fault stop drop cut_front cut_back]:
  assumes "bch_extent_sort_fixup (m, iter) = None \<Longrightarrow> P"
    and "bch_extent_sort_fixup (m, iter) = Some (m, iter) \<Longrightarrow> P"
    and "\<And>i ik iter'. i < length iter \<Longrightarrow> 0 < i \<Longrightarrow> key_at m (set_k (iter ! i)) = Some ik \<Longrightarrow>
           heap_sift (bch_extent_sort_cmp m) (sort_key_next iter i) i = Some iter' \<Longrightarrow>
           bch_extent_sort_fixup (m, iter) = bch_extent_sort_fixup (m, iter') \<Longrightarrow> P"
    and "\<And>i tk ik ik' iter'. i < length iter \<Longrightarrow> 0 < i \<Longrightarrow>
           key_at m (set_k (iter ! 0)) = Some tk \<Longrightarrow>
           key_at m (set_k (iter ! i)) = Some ik \<Longrightarrow>
           \<not> bkey_cmp tk (START_KEY ik) \<le> 0 \<Longrightarrow> \<not> bkey_cmp tk ik \<ge> 0 \<Longrightarrow>
           bch_cut_front tk ik = Some ik' \<Longrightarrow>
           heap_sift (bch_extent_sort_cmp (m[set_k (iter ! i) := ik'])) iter i = Some iter' \<Longrightarrow>
           bch_extent_sort_fixup (m, iter) =
             bch_extent_sort_fixup (m[set_k (iter ! i) := ik'], iter') \<Longrightarrow> P"
    and "\<And>i tk ik tk'. i < length iter \<Longrightarrow> 0 < i \<Longrightarrow>
           key_at m (set_k (iter ! 0)) = Some tk \<Longrightarrow>
           key_at m (set_k (iter ! i)) = Some ik \<Longrightarrow>
           \<not> bkey_cmp tk (START_KEY ik) \<le> 0 \<Longrightarrow>
           bch_cut_back (START_KEY ik) tk = Some tk' \<Longrightarrow>
           bch_extent_sort_fixup (m, iter) =
             bch_extent_sort_fixup (m[set_k (iter ! 0) := tk'], iter) \<Longrightarrow> P"
  shows P
proof (cases "length iter > 1")
  case False
  then show ?thesis using assms(2) by (simp add: bch_extent_sort_fixup.simps[of m iter])
next
  case True
  show ?thesis
  proof (cases "(if length iter > 2 then bch_extent_sort_cmp m (iter ! 1) (iter ! 2) else Some False)")
    case None
    then show ?thesis using assms(1) True by (simp add: bch_extent_sort_fixup.simps[of m iter])
  next
    case (Some b)
    define i where "i = (if b then 2 else 1::nat)"
    have i: "i < length iter" "0 < i" using True Some by (auto simp: i_def split: if_splits)
    show ?thesis
    proof (cases "key_at m (set_k (iter ! 0))")
      case None
      then show ?thesis using assms(1) True Some
        by (simp add: bch_extent_sort_fixup.simps[of m iter])
    next
      case tk: (Some tk)
      show ?thesis
      proof (cases "key_at m (set_k (iter ! i))")
        case None
        then show ?thesis using assms(1) True Some tk
          by (simp add: bch_extent_sort_fixup.simps[of m iter] i_def)
      next
        case ik: (Some ik)
        have unf: "bch_extent_sort_fixup (m, iter) =
           (if bkey_cmp tk (START_KEY ik) \<le> 0 then Some (m, iter)
                     else if KEY_SIZE ik = 0 then
                       (case heap_sift (bch_extent_sort_cmp m) (sort_key_next iter i) i of
                          None \<Rightarrow> None
                        | Some iter' \<Rightarrow> bch_extent_sort_fixup (m, iter'))
                     else if set_k (iter ! 0) > set_k (iter ! i) then
                       (if bkey_cmp tk ik \<ge> 0 then
                          (case heap_sift (bch_extent_sort_cmp m) (sort_key_next iter i) i of
                             None \<Rightarrow> None
                           | Some iter' \<Rightarrow> bch_extent_sort_fixup (m, iter'))
                        else
                          (case bch_cut_front tk ik of
                             None \<Rightarrow> None
                           | Some ik' \<Rightarrow>
                               let m' = m[set_k (iter ! i) := ik']
                               in (case heap_sift (bch_extent_sort_cmp m') iter i of
                                     None \<Rightarrow> None
                                   | Some iter' \<Rightarrow> bch_extent_sort_fixup (m', iter'))))
                     else
                       (if bkey_cmp (START_KEY tk) (START_KEY ik) = 0 then None
                        else
                          (case bch_cut_back (START_KEY ik) tk of
                             None \<Rightarrow> None
                           | Some tk' \<Rightarrow>
                               bch_extent_sort_fixup (m[set_k (iter ! 0) := tk'], iter))))"
          using True Some tk ik
          by (subst bch_extent_sort_fixup.simps) (cases b; simp add: i_def Let_def cong: option.case_cong)
        show ?thesis
        proof (cases "bkey_cmp tk (START_KEY ik) \<le> 0")
          case True
          then show ?thesis using unf assms(2) by simp
        next
          case nb: False
          show ?thesis
          proof (cases "KEY_SIZE ik = 0 \<or> (set_k (iter ! 0) > set_k (iter ! i) \<and> bkey_cmp tk ik \<ge> 0)")
            case True
            then have u: "bch_extent_sort_fixup (m, iter) =
                (case heap_sift (bch_extent_sort_cmp m) (sort_key_next iter i) i of
                          None \<Rightarrow> None
                        | Some iter' \<Rightarrow> bch_extent_sort_fixup (m, iter'))"
              using unf nb by auto
            show ?thesis
            proof (cases "heap_sift (bch_extent_sort_cmp m) (sort_key_next iter i) i")
              case None
              then show ?thesis using u assms(1) by simp
            next
              case (Some iter')
              then show ?thesis using u assms(3)[OF i ik Some] by simp
            qed
          next
            case nd: False
            show ?thesis
            proof (cases "set_k (iter ! 0) > set_k (iter ! i)")
              case True
              then have u: "bch_extent_sort_fixup (m, iter) =
                  (case bch_cut_front tk ik of
                             None \<Rightarrow> None
                           | Some ik' \<Rightarrow>
                               (case heap_sift (bch_extent_sort_cmp (m[set_k (iter ! i) := ik'])) iter i of
                                     None \<Rightarrow> None
                                   | Some iter' \<Rightarrow> bch_extent_sort_fixup (m[set_k (iter ! i) := ik'], iter')))"
                using unf nb nd by (auto simp: Let_def cong: option.case_cong)
              have nge: "\<not> bkey_cmp tk ik \<ge> 0" using nd True by simp
              show ?thesis
              proof (cases "bch_cut_front tk ik")
                case None
                then show ?thesis using u assms(1) by simp
              next
                case cf: (Some ik')
                show ?thesis
                proof (cases "heap_sift (bch_extent_sort_cmp (m[set_k (iter ! i) := ik'])) iter i")
                  case None
                  then show ?thesis using u cf assms(1) by simp
                next
                  case (Some iter')
                  then show ?thesis using u cf assms(4)[OF i tk ik nb nge cf Some] by simp
                qed
              qed
            next
              case False
              then have u: "bch_extent_sort_fixup (m, iter) =
                  (if bkey_cmp (START_KEY tk) (START_KEY ik) = 0 then None
                        else
                          (case bch_cut_back (START_KEY ik) tk of
                             None \<Rightarrow> None
                           | Some tk' \<Rightarrow>
                               bch_extent_sort_fixup (m[set_k (iter ! 0) := tk'], iter)))"
                using unf nb nd by auto
              show ?thesis
              proof (cases "bch_cut_back (START_KEY ik) tk")
                case None
                then show ?thesis using u assms(1) by simp
              next
                case (Some tk')
                then show ?thesis using u assms(1) assms(5)[OF i tk ik nb Some]
                  by (simp split: if_splits)
              qed
            qed
          qed
        qed
      qed
    qed
  qed
qed

lemma fixup_room_le:
  assumes "bch_extent_sort_fixup (m, iter) = Some (m', iter')"
  shows "length m' = length m \<and> cursor_room m' iter' \<le> cursor_room m iter"
  using wf_fixup_rel assms
proof (induction "(m, iter)" arbitrary: m iter rule: wf_induct_rule)
  case less
  show ?case
  proof (cases rule: fixup_cases[where m=m and iter=iter])
    case fault
    with less.prems show ?thesis by simp
  next
    case stop
    with less.prems show ?thesis by simp
  next
    case (drop i ik it)
    have r: "((m, it), (m, iter)) \<in> fixup_rel"
      using drop by (intro fixup_rel_drop[where i=i and ik=ik]) simp_all
    from less.hyps[OF r] less.prems drop(5) r show ?thesis
      by (auto simp: fixup_rel_def)
  next
    case (cut_front i tk ik ik' it)
    have r: "((m[set_k (iter ! i) := ik'], it), (m, iter)) \<in> fixup_rel"
      using cut_front by (intro fixup_rel_cut_front[where ik=ik and tk=tk]) simp_all
    from less.hyps[OF r] less.prems cut_front(9) r show ?thesis
      by (auto simp: fixup_rel_def)
  next
    case (cut_back i tk ik tk')
    have r: "((m[set_k (iter ! 0) := tk'], iter), (m, iter)) \<in> fixup_rel"
      using cut_back by (intro fixup_rel_cut_back[where ik=ik and tk=tk]) simp_all
    from less.hyps[OF r] less.prems cut_back(7) r show ?thesis
      by (auto simp: fixup_rel_def)
  qed
qed

section \<open>The merge that drives the fixup\<close>

text \<open>
  Modelled from the spec: the merge loop and the iterator's next, which are not under
  src/. While a cursor remains, the fixup runs on the heap; then the key under the top
  cursor is emitted (its address and its value at that moment), the cursor moves on and
  the heap is re-sifted from the top.
\<close>

function emit_extents :: "bkey list \<times> btree_iter_set list \<Rightarrow> (nat \<times> bkey) list option" where
  "emit_extents (m, iter) =
     (if iter = [] then Some []
      else
        (case bch_extent_sort_fixup (m, iter) of
           None \<Rightarrow> None
         | Some (m', iter') \<Rightarrow>
             if iter' = [] then Some []
             else
               (case key_at m' (set_k (iter' ! 0)) of
                  None \<Rightarrow> None
                | Some ret \<Rightarrow>
                    (case heap_sift (bch_extent_sort_cmp m') (sort_key_next iter' 0) 0 of
                       None \<Rightarrow> None
                     | Some iter'' \<Rightarrow>
                         map_option (Cons (set_k (iter' ! 0), ret))
                           (emit_extents (m', iter''))))))"
  by pat_completeness auto
termination
proof (relation "measure (\<lambda>(m, iter). cursor_room m iter)")
  fix m iter x2 m' iter' ret iter''
  assume a: "iter \<noteq> []" "bch_extent_sort_fixup (m, iter) = Some x2" "(m', iter') = x2"
    "iter' \<noteq> []" "key_at m' (set_k (iter' ! 0)) = Some ret"
    "heap_sift (bch_extent_sort_cmp m') (sort_key_next iter' 0) 0 = Some iter''"
  have "cursor_room m' iter'' = cursor_room m' (sort_key_next iter' 0)"
    using a(6) by (rule heap_sift_room)
  also have "\<dots> < cursor_room m' iter'"
    using a(4,5) by (intro sort_key_next_room) (auto simp: key_at_Some)
  also have "\<dots> \<le> cursor_room m iter"
    using fixup_room_le[of m iter m' iter'] a(2,3) by simp
  finally show "((m', iter''), (m, iter)) \<in> measure (\<lambda>(m, iter). cursor_room m iter)"
    by simp
qed simp

declare emit_extents.simps [simp del]

section \<open>The heap order\<close>

definition is_heap :: "('a \<Rightarrow> 'a \<Rightarrow> bool) \<Rightarrow> 'a list \<Rightarrow> bool" where
  "is_heap gt h \<longleftrightarrow> (\<forall>c. 0 < c \<and> c < length h \<longrightarrow> \<not> gt (h ! ((c - 1) div 2)) (h ! c))"

definition heap_except :: "('a \<Rightarrow> 'a \<Rightarrow> bool) \<Rightarrow> 'a list \<Rightarrow> nat \<Rightarrow> bool" where
  "heap_except gt h j \<longleftrightarrow>
     (\<forall>c. 0 < c \<and> c < length h \<and> (c - 1) div 2 \<noteq> j \<longrightarrow> \<not> gt (h ! ((c - 1) div 2)) (h ! c)) \<and>
     (0 < j \<longrightarrow> (\<forall>c. 0 < c \<and> c < length h \<and> (c - 1) div 2 = j \<longrightarrow>
                    \<not> gt (h ! ((j - 1) div 2)) (h ! c)))"

lemma parent_eq: "0 < (c::nat) \<Longrightarrow> ((c - 1) div 2 = j) = (c = j * 2 + 1 \<or> c = j * 2 + 2)"
  by presburger

lemma parent_less: "0 < (c::nat) \<Longrightarrow> (c - 1) div 2 < c"
  by presburger

lemma heap_sift_leaf: "\<not> j * 2 + 1 < length h \<Longrightarrow> heap_sift cmp h j = Some h"
  by (simp add: heap_sift.simps[of cmp h j])

lemma heap_sift_step:
  assumes "j * 2 + 1 < length h"
    and "(if j * 2 + 2 < length h then cmp (h ! (j * 2 + 1)) (h ! (j * 2 + 2)) else Some False) = Some b"
    and "cmp (h ! (if b then j * 2 + 2 else j * 2 + 1)) (h ! j) = Some stop"
  shows "heap_sift cmp h j =
     (if stop then Some h
      else heap_sift cmp (h[(if b then j * 2 + 2 else j * 2 + 1) := h ! j,
                            j := h ! (if b then j * 2 + 2 else j * 2 + 1)])
             (if b then j * 2 + 2 else j * 2 + 1))"
  using assms by (subst heap_sift.simps) (simp add: Let_def)

lemma heap_sift_heap:
  assumes "\<forall>x\<in>set h. \<forall>y\<in>set h. cmp x y = Some (gt x y)"
    and tr: "\<And>x y z. \<not> gt x y \<Longrightarrow> \<not> gt y z \<Longrightarrow> \<not> gt x z"
    and asym: "\<And>x y. gt x y \<Longrightarrow> \<not> gt y x"
    and "heap_except gt h j"
  shows "\<exists>h'. heap_sift cmp h j = Some h' \<and> is_heap gt h' \<and> mset h' = mset h \<and>
            (\<forall>t<j. h' ! t = h ! t)"
  using assms(1,4)
proof (induction cmp h j rule: heap_sift.induct)
  case (1 cmp h j)
  note cmp = "1.prems"(1) and ex = "1.prems"(2)
  show ?case
  proof (cases "j * 2 + 1 < length h")
    case False
    have "is_heap gt h"
      unfolding is_heap_def
    proof (intro allI impI)
      fix c assume c: "0 < c \<and> c < length h"
      with False have "(c - 1) div 2 \<noteq> j" by (auto simp: parent_eq)
      with ex c show "\<not> gt (h ! ((c - 1) div 2)) (h ! c)" by (auto simp: heap_except_def)
    qed
    then show ?thesis using heap_sift_leaf[OF False] by simp
  next
    case True
    define b where "b = (j * 2 + 2 < length h \<and> gt (h ! (j * 2 + 1)) (h ! (j * 2 + 2)))"
    define r where "r = (if b then j * 2 + 2 else j * 2 + 1)"
    define oc where "oc = (if b then j * 2 + 1 else j * 2 + 2)"
    have rl: "r < length h" "j < length h" "j < r" "r \<noteq> j"
      using True by (auto simp: r_def b_def)
    have bb: "(if j * 2 + 2 < length h then cmp (h ! (j * 2 + 1)) (h ! (j * 2 + 2)) else Some False) = Some b"
      using cmp True by (auto simp: b_def)
    have st: "cmp (h ! r) (h ! j) = Some (gt (h ! r) (h ! j))"
      using cmp rl by simp
    have ro: "oc < length h \<Longrightarrow> \<not> gt (h ! r) (h ! oc)"
      using asym by (auto simp: r_def oc_def b_def)
    have kids: "\<And>c. 0 < c \<Longrightarrow> ((c - 1) div 2 = j) = (c = r \<or> c = oc)"
      by (auto simp: parent_eq r_def oc_def)
    have step: "heap_sift cmp h j =
       (if gt (h ! r) (h ! j) then Some h else heap_sift cmp (h[r := h ! j, j := h ! r]) r)"
      using heap_sift_step[OF True bb st[unfolded r_def]] by (simp add: r_def)
    show ?thesis
    proof (cases "gt (h ! r) (h ! j)")
      case stop: True
      have jr: "\<not> gt (h ! j) (h ! r)" using asym[OF stop] .
      have "is_heap gt h"
        unfolding is_heap_def
      proof (intro allI impI)
        fix c assume c: "0 < c \<and> c < length h"
        show "\<not> gt (h ! ((c - 1) div 2)) (h ! c)"
        proof (cases "(c - 1) div 2 = j")
          case False
          with ex c show ?thesis by (auto simp: heap_except_def)
        next
          case True
          with c kids have "c = r \<or> c = oc" by simp
          then show ?thesis
            using jr ro c tr[OF jr] True by auto
        qed
      qed
      then show ?thesis using step stop by simp
    next
      case go: False
      define h2 where "h2 = h[r := h ! j, j := h ! r]"
      have len2: "length h2 = length h" by (simp add: h2_def)
      have set2: "mset h2 = mset h" using rl by (simp add: h2_def mset_swap)
      then have sset2: "set h2 = set h" by (rule mset_eq_setD)
      have nth2: "h2 ! j = h ! r" "h2 ! r = h ! j" "\<And>t. t \<noteq> j \<Longrightarrow> t \<noteq> r \<Longrightarrow> h2 ! t = h ! t"
        using rl by (simp_all add: h2_def)
      have cmp2: "\<forall>x\<in>set h2. \<forall>y\<in>set h2. cmp x y = Some (gt x y)"
        using cmp sset2 by simp
      have ex2: "heap_except gt h2 r"
        unfolding heap_except_def
      proof (intro conjI allI impI)
        fix c assume c: "0 < c \<and> c < length h2 \<and> (c - 1) div 2 \<noteq> r"
        then have cl: "c < length h" "0 < c" using len2 by simp_all
        let ?p = "(c - 1) div 2"
        show "\<not> gt (h2 ! ?p) (h2 ! c)"
        proof (cases "?p = j")
          case True
          with kids cl have "c = r \<or> c = oc" by simp
          moreover have "oc \<noteq> j" "oc \<noteq> r" by (auto simp: oc_def r_def)
          ultimately show ?thesis
            using True go ro cl nth2 by auto
        next
          case pj: False
          have pr: "?p \<noteq> r" using c by simp
          have cr: "c \<noteq> r" using kids[OF cl(2)] pj by auto
          show ?thesis
          proof (cases "c = j")
            case True
            then have j0: "0 < j" using cl by simp
            have "(r - 1) div 2 = j" "0 < r" using kids[of r] rl by auto
            with ex j0 rl have "\<not> gt (h ! ((j - 1) div 2)) (h ! r)"
              by (auto simp: heap_except_def)
            then show ?thesis using True nth2 pj pr by simp
          next
            case False
            with ex cl pj have "\<not> gt (h ! ?p) (h ! c)" by (auto simp: heap_except_def)
            then show ?thesis using nth2(3)[of c] nth2(3)[of ?p] False cr pj pr by simp
          qed
        qed
      next
        fix c assume r0: "0 < r" and c: "0 < c \<and> c < length h2 \<and> (c - 1) div 2 = r"
        have pr: "(r - 1) div 2 = j" using kids[of r] rl by auto
        have cj: "c \<noteq> j" "c \<noteq> r" using c rl parent_less[of c] by auto
        from ex c len2 rl have "\<not> gt (h ! r) (h ! c)"
          by (auto simp: heap_except_def)
        then show "\<not> gt (h2 ! ((r - 1) div 2)) (h2 ! c)"
          using pr nth2 cj by simp
      qed
      have eq: "heap_sift cmp h j = heap_sift cmp h2 r"
        using step go by (simp add: h2_def)
      from "1.IH"[OF True bb r_def st go, folded h2_def, OF cmp2 ex2]
      obtain h' where h': "heap_sift cmp h2 r = Some h'" "is_heap gt h'" "mset h' = mset h2"
        "\<forall>t<r. h' ! t = h2 ! t" by blast
      have "\<forall>t<j. h' ! t = h ! t"
        using h'(4) nth2(3) rl by auto
      then show ?thesis
        using eq h' set2 by simp
    qed
  qed
qed

lemma heap_top_min:
  assumes "is_heap gt h" and tr: "\<And>x y z. \<not> gt x y \<Longrightarrow> \<not> gt y z \<Longrightarrow> \<not> gt x z"
    and asym: "\<And>x y. gt x y \<Longrightarrow> \<not> gt y x"
    and "c < length h"
  shows "\<not> gt (h ! 0) (h ! c)"
  using assms(4)
proof (induction c rule: less_induct)
  case (less c)
  show ?case
  proof (cases "c = 0")
    case True
    then show ?thesis using asym by auto
  next
    case False
    then have p: "(c - 1) div 2 < c" by (simp add: parent_less)
    with less have "\<not> gt (h ! 0) (h ! ((c - 1) div 2))" by simp
    moreover have "\<not> gt (h ! ((c - 1) div 2)) (h ! c)"
      using assms(1) False less.prems by (simp add: is_heap_def)
    ultimately show ?thesis by (rule tr)
  qed
qed

section \<open>Well-formed runs\<close>

definition key_valid :: "bkey \<Rightarrow> bool" where
  "key_valid k \<longleftrightarrow> unat (KEY_SIZE k) \<le> unat (KEY_OFFSET k)"

definition kstart :: "bkey \<Rightarrow> nat" where
  "kstart k = unat (KEY_START k)"

definition kend :: "bkey \<Rightarrow> nat" where
  "kend k = unat (KEY_OFFSET k)"

text \<open>
  The cursors of a heap are distinct, each stands on a key of its run, the remainders of
  the runs are disjoint stretches of the key array, every key in them is no larger than
  its offset, and in each run every key ends at or before the start of the next.
\<close>

definition runs_ok :: "bkey list \<Rightarrow> btree_iter_set list \<Rightarrow> bool" where
  "runs_ok m iter \<longleftrightarrow>
     distinct iter \<and>
     (\<forall>s\<in>set iter. set_k s < set_end s \<and> set_end s \<le> length m) \<and>
     (\<forall>s\<in>set iter. \<forall>t\<in>set iter. s \<noteq> t \<longrightarrow> set_end s \<le> set_k t \<or> set_end t \<le> set_k s) \<and>
     (\<forall>s\<in>set iter. \<forall>p. set_k s \<le> p \<and> p < set_end s \<longrightarrow> key_valid (m ! p)) \<and>
     (\<forall>s\<in>set iter. \<forall>p. set_k s \<le> p \<and> Suc p < set_end s \<longrightarrow> kend (m ! p) \<le> kstart (m ! Suc p))"

text \<open>The order of the heap, as \<open>bch_extent_sort_cmp\<close> computes it on valid cursors.\<close>

definition extent_gt :: "bkey list \<Rightarrow> btree_iter_set \<Rightarrow> btree_iter_set \<Rightarrow> bool" where
  "extent_gt m l r \<longleftrightarrow>
     kstart (m ! set_k l) > kstart (m ! set_k r) \<or>
     (kstart (m ! set_k l) = kstart (m ! set_k r) \<and> set_k l < set_k r)"

definition ext_inv :: "bkey list \<Rightarrow> btree_iter_set list \<Rightarrow> bool" where
  "ext_inv m iter \<longleftrightarrow> runs_ok m iter \<and> is_heap (extent_gt m) iter"

definition segs :: "btree_iter_set list \<Rightarrow> nat set" where
  "segs iter = (\<Union>s\<in>set iter. {set_k s..<set_end s})"

lemma kstart_le_kend: "key_valid k \<Longrightarrow> kstart k \<le> kend k"
  by (simp add: key_valid_def kstart_def kend_def unat_KEY_START)

lemma kstart_eq: "key_valid k \<Longrightarrow> kstart k = kend k - unat (KEY_SIZE k)"
  by (simp add: key_valid_def kstart_def kend_def unat_KEY_START)

lemma extent_gt_trans: "\<not> extent_gt m x y \<Longrightarrow> \<not> extent_gt m y z \<Longrightarrow> \<not> extent_gt m x z"
  by (auto simp: extent_gt_def)

lemma extent_gt_asym: "extent_gt m x y \<Longrightarrow> \<not> extent_gt m y x"
  by (auto simp: extent_gt_def)

lemma extent_cmp_gt:
  "set_k l < length m \<Longrightarrow> set_k r < length m \<Longrightarrow>
   bch_extent_sort_cmp m l r = Some (extent_gt m l r)"
  by (auto simp: bch_extent_sort_cmp_def key_at_def extent_gt_def kstart_def bkey_cmp_simps Let_def
      word_unat_eq_iff)

lemma runs_ok_cmp:
  "runs_ok m iter \<Longrightarrow> \<forall>x\<in>set iter. \<forall>y\<in>set iter. bch_extent_sort_cmp m x y = Some (extent_gt m x y)"
  by (auto simp: runs_ok_def intro!: extent_cmp_gt)

lemma runs_ok_mset:
  assumes "mset iter' = mset iter"
  shows "runs_ok m iter' = runs_ok m iter"
  unfolding runs_ok_def mset_eq_setD[OF assms] mset_eq_imp_distinct_iff[OF assms] ..

lemma segs_mset:
  assumes "mset iter' = mset iter"
  shows "segs iter' = segs iter"
  unfolding segs_def mset_eq_setD[OF assms] ..

lemma runs_ok_head:
  "runs_ok m iter \<Longrightarrow> s \<in> set iter \<Longrightarrow> set_k s < length m \<and> key_valid (m ! set_k s)"
  by (auto simp: runs_ok_def)

lemma runs_ok_k_inj:
  assumes "runs_ok m iter" "s \<in> set iter" "t \<in> set iter" "set_k s = set_k t"
  shows "s = t"
proof (rule ccontr)
  assume "s \<noteq> t"
  with assms(1-3) have "set_end s \<le> set_k t \<or> set_end t \<le> set_k s"
    unfolding runs_ok_def by blast
  moreover have "set_k s < set_end s" "set_k t < set_end t"
    using assms(1-3) unfolding runs_ok_def by blast+
  ultimately show False using assms(4) by linarith
qed

subsection \<open>What the two cuts do to a valid key\<close>

lemma cut_front_valid:
  assumes "key_valid ik" and "kstart ik < kend tk" and "kend tk < kend ik"
  shows "\<exists>ik'. bch_cut_front tk ik = Some ik' \<and> kend ik' = kend ik \<and> kstart ik' = kend tk \<and>
           key_valid ik' \<and> KEY_SIZE ik' \<noteq> 0"
proof -
  define len where "len = KEY_OFFSET ik - KEY_OFFSET tk"
  have ulen: "unat len = kend ik - kend tk"
    unfolding len_def kend_def using assms(3)
    by (subst unat_sub) (simp_all add: word_le_nat_alt kend_def)
  have st: "kstart ik = kend ik - unat (KEY_SIZE ik)" and sz: "unat (KEY_SIZE ik) \<le> kend ik"
    using assms(1) by (simp_all add: kstart_eq key_valid_def kend_def)
  have le: "unat len < unat (KEY_SIZE ik)" "0 < unat len"
    using ulen st assms(2,3) sz by linarith+
  define k2 where "k2 = advance_ptrs [0..<KEY_PTRS ik] (ucast (KEY_SIZE ik) - len) ik"
  have cf: "bch_cut_front tk ik = Some (k2\<lparr>KEY_SIZE := ucast len\<rparr>)"
    using assms(2,3) le
    by (simp add: bch_cut_front_def bkey_cmp_simps Let_def len_def[symmetric] k2_def[symmetric]
        kend_def kstart_def)
  have us: "unat (ucast len :: 16 word) = unat len"
    using le unat_size_lt[of "KEY_SIZE ik"] by (intro unat_ucast_64_16) simp
  have v: "key_valid (k2\<lparr>KEY_SIZE := ucast len\<rparr>)"
    using us ulen by (simp add: key_valid_def k2_def kend_def)
  have "kstart (k2\<lparr>KEY_SIZE := ucast len\<rparr>) = kend tk"
    using kstart_eq[OF v] us ulen assms(3) by (simp add: k2_def kend_def)
  moreover have "KEY_SIZE (k2\<lparr>KEY_SIZE := ucast len\<rparr>) \<noteq> 0"
    using us le by auto
  ultimately show ?thesis
    using cf v by (simp add: k2_def kend_def)
qed

lemma cut_back_valid:
  assumes "key_valid tk" and "kstart tk < kstart ik" and "kstart ik < kend tk"
  shows "\<exists>tk'. bch_cut_back (START_KEY ik) tk = Some tk' \<and> kend tk' = kstart ik \<and>
           kstart tk' = kstart tk \<and> key_valid tk' \<and> KEY_SIZE tk' \<noteq> 0"
proof -
  define len where "len = KEY_START ik - KEY_START tk"
  have ulen: "unat len = kstart ik - kstart tk"
    unfolding len_def using assms(2)
    by (subst unat_sub) (simp_all add: word_le_nat_alt kstart_def)
  have st: "kstart tk = kend tk - unat (KEY_SIZE tk)" and sz: "unat (KEY_SIZE tk) \<le> kend tk"
    using assms(1) by (simp_all add: kstart_eq key_valid_def kend_def)
  have le: "unat len < unat (KEY_SIZE tk)" "0 < unat len"
    using ulen st assms(2,3) sz by linarith+
  let ?tk' = "tk\<lparr>KEY_OFFSET := KEY_START ik, KEY_SIZE := ucast len\<rparr>"
  have cb: "bch_cut_back (START_KEY ik) tk = Some ?tk'"
    using assms(2,3) le
    by (simp add: bch_cut_back_def bkey_cmp_simps Let_def len_def[symmetric] kend_def kstart_def)
  have us: "unat (ucast len :: 16 word) = unat len"
    using le unat_size_lt[of "KEY_SIZE tk"] by (intro unat_ucast_64_16) simp
  have v: "key_valid ?tk'"
    using us ulen by (simp add: key_valid_def kstart_def)
  have "kstart ?tk' = kstart tk"
    using kstart_eq[OF v] us ulen assms(2) by (simp add: kend_def kstart_def)
  moreover have "KEY_SIZE ?tk' \<noteq> 0"
    using us le by auto
  ultimately show ?thesis
    using cb v by (simp add: kend_def kstart_def)
qed

subsection \<open>Changing the key under a cursor\<close>

lemma runs_ok_update:
  assumes ok: "runs_ok m iter" and s: "s \<in> set iter"
    and v: "key_valid k'" and e: "kend k' \<le> kend (m ! set_k s)"
  shows "runs_ok (m[set_k s := k']) iter"
proof -
  let ?q = "set_k s" and ?m' = "m[set_k s := k']"
  have ql: "?q < length m" using ok s by (auto simp: runs_ok_def)
  have other: "\<And>t p. t \<in> set iter \<Longrightarrow> t \<noteq> s \<Longrightarrow> set_k t \<le> p \<Longrightarrow> p < set_end t \<Longrightarrow> p \<noteq> ?q"
  proof
    fix t p assume t: "t \<in> set iter" "t \<noteq> s" "set_k t \<le> p" "p < set_end t" "p = ?q"
    from ok s t(1,2) have "set_end s \<le> set_k t \<or> set_end t \<le> set_k s"
      unfolding runs_ok_def by blast
    moreover have "set_k s < set_end s" using ok s unfolding runs_ok_def by blast
    ultimately show False using t(3-5) by linarith
  qed
  have valid: "\<And>t p. t \<in> set iter \<Longrightarrow> set_k t \<le> p \<Longrightarrow> p < set_end t \<Longrightarrow> key_valid (?m' ! p)"
  proof -
    fix t p assume t: "t \<in> set iter" "set_k t \<le> p" "p < set_end t"
    then have "key_valid (m ! p)" using ok unfolding runs_ok_def by blast
    then show "key_valid (?m' ! p)"
      using v ql by (cases "p = ?q") simp_all
  qed
  have sorted: "\<And>t p. t \<in> set iter \<Longrightarrow> set_k t \<le> p \<Longrightarrow> Suc p < set_end t \<Longrightarrow>
      kend (?m' ! p) \<le> kstart (?m' ! Suc p)"
  proof -
    fix t p assume t: "t \<in> set iter" "set_k t \<le> p" "Suc p < set_end t"
    then have old: "kend (m ! p) \<le> kstart (m ! Suc p)" using ok unfolding runs_ok_def by blast
    have np: "Suc p \<noteq> ?q"
    proof (cases "t = s")
      case True
      then show ?thesis using t by simp
    next
      case False
      from other[OF t(1) False, of "Suc p"] t show ?thesis by simp
    qed
    show "kend (?m' ! p) \<le> kstart (?m' ! Suc p)"
    proof (cases "p = ?q")
      case True
      then show ?thesis using old e np ql by simp
    next
      case False
      then show ?thesis using old np by simp
    qed
  qed
  show ?thesis
    unfolding runs_ok_def
    using ok valid sorted by (auto simp: runs_ok_def)
qed

lemma extent_gt_update_other:
  "set_k x \<noteq> p \<Longrightarrow> set_k y \<noteq> p \<Longrightarrow> extent_gt (m[p := k']) x y = extent_gt m x y"
  by (simp add: extent_gt_def)

lemma extent_gt_update_same_start:
  "p < length m \<Longrightarrow> kstart k' = kstart (m ! p) \<Longrightarrow> extent_gt (m[p := k']) x y = extent_gt m x y"
  by (auto simp: extent_gt_def nth_list_update)

subsection \<open>The shape of the heap after a cursor moves on\<close>

lemma sort_key_next_stay:
  assumes "set_k (iter ! i) + 1 \<noteq> set_end (iter ! i)"
  shows "sort_key_next iter i = iter[i := (iter ! i)\<lparr>set_k := set_k (iter ! i) + 1\<rparr>]"
  using assms by (simp add: sort_key_next_def Let_def)

lemma sort_key_next_gone:
  assumes "set_k (iter ! i) + 1 = set_end (iter ! i)"
  shows "sort_key_next iter i = butlast (iter[i := last iter])"
  using assms by (simp add: sort_key_next_def Let_def)

lemma nth_gone:
  assumes "c < length iter - 1" "i < length iter"
  shows "butlast (iter[i := last iter]) ! c = (if c = i then last iter else iter ! c)"
  using assms by (simp add: nth_butlast nth_list_update)

lemma mset_sort_key_next_remove1:
  assumes "i < length iter"
  shows "mset (sort_key_next iter i) =
     mset (if set_k (iter ! i) + 1 = set_end (iter ! i) then remove1 (iter ! i) iter
           else (iter ! i)\<lparr>set_k := set_k (iter ! i) + 1\<rparr> # remove1 (iter ! i) iter)"
  using mset_sort_key_next[OF assms] by simp

lemma runs_ok_remove1:
  assumes "runs_ok m iter"
  shows "runs_ok m (remove1 x iter)"
proof -
  have "set (remove1 x iter) \<subseteq> set iter" by (rule set_remove1_subset)
  then show ?thesis
    using assms unfolding runs_ok_def by (auto simp: subset_iff)
qed

lemma runs_ok_advance:
  assumes ok: "runs_ok m iter" and x: "x \<in> set iter" and ne: "set_k x + 1 \<noteq> set_end x"
  shows "runs_ok m (x\<lparr>set_k := set_k x + 1\<rparr> # remove1 x iter)"
proof -
  let ?s = "x\<lparr>set_k := set_k x + 1\<rparr>"
  have d: "distinct iter" using ok by (simp add: runs_ok_def)
  have rest: "set (remove1 x iter) = set iter - {x}" using d by (rule set_remove1_eq)
  have xr: "set_k x < set_end x" "set_end x \<le> length m" using ok x by (auto simp: runs_ok_def)
  have sr: "set_k ?s < set_end ?s" "set_end ?s \<le> length m" "set_k x \<le> set_k ?s" "set_end ?s = set_end x"
    using xr ne by simp_all
  have disj: "\<And>t. t \<in> set iter \<Longrightarrow> t \<noteq> x \<Longrightarrow> set_end ?s \<le> set_k t \<or> set_end t \<le> set_k ?s"
  proof -
    fix t assume "t \<in> set iter" "t \<noteq> x"
    with ok x have "set_end x \<le> set_k t \<or> set_end t \<le> set_k x" unfolding runs_ok_def by blast
    then show "set_end ?s \<le> set_k t \<or> set_end t \<le> set_k ?s" by auto
  qed
  have notin: "?s \<notin> set iter - {x}"
  proof
    assume "?s \<in> set iter - {x}"
    then have "set_end ?s \<le> set_k ?s \<or> set_end ?s \<le> set_k ?s" using disj[of ?s] by blast
    then show False using sr by simp
  qed
  have r: "runs_ok m (remove1 x iter)" using ok by (rule runs_ok_remove1)
  have v: "\<And>p. set_k ?s \<le> p \<Longrightarrow> p < set_end ?s \<Longrightarrow> key_valid (m ! p)"
    using ok x unfolding runs_ok_def by (metis sr(3,4) le_trans)
  have so: "\<And>p. set_k ?s \<le> p \<Longrightarrow> Suc p < set_end ?s \<Longrightarrow> kend (m ! p) \<le> kstart (m ! Suc p)"
    using ok x unfolding runs_ok_def by (metis sr(3,4) le_trans)
  show ?thesis
    unfolding runs_ok_def
  proof (intro conjI)
    show "distinct (?s # remove1 x iter)" using d notin rest by simp
    show "\<forall>s\<in>set (?s # remove1 x iter). set_k s < set_end s \<and> set_end s \<le> length m"
      using r sr by (auto simp: runs_ok_def)
    show "\<forall>s\<in>set (?s # remove1 x iter). \<forall>t\<in>set (?s # remove1 x iter).
       s \<noteq> t \<longrightarrow> set_end s \<le> set_k t \<or> set_end t \<le> set_k s"
    proof (intro ballI impI)
      fix s t assume st: "s \<in> set (?s # remove1 x iter)" "t \<in> set (?s # remove1 x iter)" "s \<noteq> t"
      show "set_end s \<le> set_k t \<or> set_end t \<le> set_k s"
      proof (cases "s = ?s")
        case True
        with st rest have "t \<in> set iter" "t \<noteq> x" by auto
        from disj[OF this] True show ?thesis by simp
      next
        case sF: False
        with st rest have s': "s \<in> set iter" "s \<noteq> x" by auto
        show ?thesis
        proof (cases "t = ?s")
          case True
          from disj[OF s'] True show ?thesis by auto
        next
          case False
          with st rest have "t \<in> set iter" by auto
          with s' st(3) ok show ?thesis unfolding runs_ok_def by blast
        qed
      qed
    qed
    show "\<forall>s\<in>set (?s # remove1 x iter). \<forall>p. set_k s \<le> p \<and> p < set_end s \<longrightarrow> key_valid (m ! p)"
      using r v by (auto simp: runs_ok_def)
    show "\<forall>s\<in>set (?s # remove1 x iter). \<forall>p. set_k s \<le> p \<and> Suc p < set_end s \<longrightarrow>
        kend (m ! p) \<le> kstart (m ! Suc p)"
      using r so by (auto simp: runs_ok_def)
  qed
qed

lemma runs_ok_next:
  assumes "runs_ok m iter" and "i < length iter"
  shows "runs_ok m (sort_key_next iter i)"
proof -
  have x: "iter ! i \<in> set iter" using assms(2) by simp
  show ?thesis
  proof (cases "set_k (iter ! i) + 1 = set_end (iter ! i)")
    case True
    then have "mset (sort_key_next iter i) = mset (remove1 (iter ! i) iter)"
      using mset_sort_key_next_remove1[OF assms(2)] by simp
    from runs_ok_mset[OF this] runs_ok_remove1[OF assms(1)] show ?thesis by simp
  next
    case False
    then have "mset (sort_key_next iter i) =
        mset ((iter ! i)\<lparr>set_k := set_k (iter ! i) + 1\<rparr> # remove1 (iter ! i) iter)"
      using mset_sort_key_next_remove1[OF assms(2)] by simp
    from runs_ok_mset[OF this] runs_ok_advance[OF assms(1) x False] show ?thesis by simp
  qed
qed

lemma segs_next:
  assumes ok: "runs_ok m iter" and i: "i < length iter"
  shows "segs (sort_key_next iter i) = segs iter - {set_k (iter ! i)}"
proof -
  let ?x = "iter ! i"
  let ?s = "?x\<lparr>set_k := set_k ?x + 1\<rparr>"
  have x: "?x \<in> set iter" using i by simp
  have d: "distinct iter" using ok by (simp add: runs_ok_def)
  have rest: "set (remove1 ?x iter) = set iter - {?x}" using d by (rule set_remove1_eq)
  have xr: "set_k ?x < set_end ?x" using ok x by (auto simp: runs_ok_def)
  have disj: "\<And>t. t \<in> set iter \<Longrightarrow> t \<noteq> ?x \<Longrightarrow> {set_k t..<set_end t} \<inter> {set_k ?x..<set_end ?x} = {}"
  proof -
    fix t assume "t \<in> set iter" "t \<noteq> ?x"
    with ok x have "set_end ?x \<le> set_k t \<or> set_end t \<le> set_k ?x" unfolding runs_ok_def by blast
    then show "{set_k t..<set_end t} \<inter> {set_k ?x..<set_end ?x} = {}" by auto
  qed
  have all: "segs iter = {set_k ?x..<set_end ?x} \<union> segs (remove1 ?x iter)"
    using x unfolding segs_def rest by auto
  have dis2: "segs (remove1 ?x iter) \<inter> {set_k ?x..<set_end ?x} = {}"
    unfolding segs_def rest using disj by blast
  show ?thesis
  proof (cases "set_k ?x + 1 = set_end ?x")
    case True
    then have "mset (sort_key_next iter i) = mset (remove1 ?x iter)"
      using mset_sort_key_next_remove1[OF i] by simp
    from segs_mset[OF this] have "segs (sort_key_next iter i) = segs (remove1 ?x iter)" .
    moreover have "{set_k ?x..<set_end ?x} = {set_k ?x}" using True by auto
    ultimately show ?thesis using all dis2 by auto
  next
    case False
    then have "mset (sort_key_next iter i) = mset (?s # remove1 ?x iter)"
      using mset_sort_key_next_remove1[OF i] by simp
    from segs_mset[OF this]
    have "segs (sort_key_next iter i) = {set_k ?x + 1..<set_end ?x} \<union> segs (remove1 ?x iter)"
      by (simp add: segs_def)
    moreover have "{set_k ?x..<set_end ?x} = insert (set_k ?x) {set_k ?x + 1..<set_end ?x}"
      using xr by auto
    ultimately show ?thesis using all dis2 by auto
  qed
qed

lemma ext_top_min:
  assumes "ext_inv m iter" and "c < length iter"
  shows "\<not> extent_gt m (iter ! 0) (iter ! c)"
  using assms heap_top_min[of "extent_gt m" iter c] extent_gt_trans extent_gt_asym
  unfolding ext_inv_def by blast

lemma ext_heap_sift:
  assumes ok: "runs_ok m h" and ex: "heap_except (extent_gt m) h j"
  shows "\<exists>h'. heap_sift (bch_extent_sort_cmp m) h j = Some h' \<and> ext_inv m h' \<and>
           mset h' = mset h \<and> (\<forall>t<j. h' ! t = h ! t)"
proof -
  have "\<exists>h'. heap_sift (bch_extent_sort_cmp m) h j = Some h' \<and> is_heap (extent_gt m) h' \<and>
           mset h' = mset h \<and> (\<forall>t<j. h' ! t = h ! t)"
  proof (rule heap_sift_heap[where gt = "extent_gt m"])
    show "\<forall>x\<in>set h. \<forall>y\<in>set h. bch_extent_sort_cmp m x y = Some (extent_gt m x y)"
      using runs_ok_cmp[OF ok] .
    show "\<And>x y z. \<not> extent_gt m x y \<Longrightarrow> \<not> extent_gt m y z \<Longrightarrow> \<not> extent_gt m x z"
      by (rule extent_gt_trans)
    show "\<And>x y. extent_gt m x y \<Longrightarrow> \<not> extent_gt m y x"
      by (rule extent_gt_asym)
    show "heap_except (extent_gt m) h j" using ex .
  qed
  then obtain h' where h': "heap_sift (bch_extent_sort_cmp m) h j = Some h'" "is_heap (extent_gt m) h'"
    "mset h' = mset h" "\<forall>t<j. h' ! t = h ! t"
    by blast
  have "runs_ok m h'" using runs_ok_mset[OF h'(3), of m] ok by simp
  then show ?thesis using h' by (auto simp: ext_inv_def)
qed

lemma advanced_not_below_top:
  assumes inv: "ext_inv m iter" and i: "0 < i" "i < length iter"
    and ne: "set_k (iter ! i) + 1 \<noteq> set_end (iter ! i)"
  shows "\<not> extent_gt m (iter ! 0) ((iter ! i)\<lparr>set_k := set_k (iter ! i) + 1\<rparr>)"
proof -
  let ?x = "iter ! i" and ?t = "set_k (iter ! 0)"
  let ?q = "set_k ?x"
  have ok: "runs_ok m iter" using inv by (simp add: ext_inv_def)
  have "0 < length iter" using i by linarith
  then have x: "?x \<in> set iter" and t0: "iter ! 0 \<in> set iter" using i by simp_all
  have "distinct iter" using ok by (simp add: runs_ok_def)
  from nth_eq_iff_index_eq[OF this \<open>0 < length iter\<close> i(2)]
  have "iter ! 0 \<noteq> ?x" using i(1) by simp
  then have tq: "?t \<noteq> ?q" using runs_ok_k_inj[OF ok t0 x] by blast
  have top: "\<not> extent_gt m (iter ! 0) ?x" using ext_top_min[OF inv i(2)] .
  have xr: "?q < set_end ?x" using ok x by (auto simp: runs_ok_def)
  then have sq: "Suc ?q < set_end ?x" using ne by simp
  have "key_valid (m ! ?q)" using ok x xr unfolding runs_ok_def by blast
  then have a: "kstart (m ! ?q) \<le> kend (m ! ?q)" by (rule kstart_le_kend)
  have b: "kend (m ! ?q) \<le> kstart (m ! Suc ?q)"
    using ok x sq unfolding runs_ok_def by blast
  show ?thesis
    using top tq a b by (auto simp: extent_gt_def)
qed

lemma heap_except_next:
  assumes inv: "ext_inv m iter" and i: "i \<le> 2" "i < length iter"
  shows "heap_except (extent_gt m) (sort_key_next iter i) i"
proof -
  let ?g = "extent_gt m" and ?n = "length iter"
  let ?h2 = "sort_key_next iter i"
  have H: "\<And>c. 0 < c \<Longrightarrow> c < ?n \<Longrightarrow> \<not> ?g (iter ! ((c - 1) div 2)) (iter ! c)"
    using inv by (simp add: ext_inv_def is_heap_def)
  have T: "\<And>c. c < ?n \<Longrightarrow> \<not> ?g (iter ! 0) (iter ! c)"
    using ext_top_min[OF inv] .
  have pi: "(i - 1) div 2 = 0" using i(1) by presburger
  obtain y n2 where len: "length ?h2 = n2" "n2 \<le> ?n"
    and nth: "\<And>c. c < n2 \<Longrightarrow> ?h2 ! c = (if c = i then y else iter ! c)"
    and N: "0 < i \<Longrightarrow> i < n2 \<Longrightarrow> \<not> ?g (iter ! 0) y"
  proof (cases "set_k (iter ! i) + 1 = set_end (iter ! i)")
    case True
    have h2: "?h2 = butlast (iter[i := last iter])" using sort_key_next_gone[OF True] .
    have "iter \<noteq> []" using i(2) by auto
    then have l: "last iter = iter ! (?n - 1)" by (rule last_conv_nth)
    show ?thesis
    proof (rule that[of "?n - 1" "last iter"])
      show "length ?h2 = ?n - 1" by (simp add: h2)
      show "?n - 1 \<le> ?n" by simp
      show "\<And>c. c < ?n - 1 \<Longrightarrow> ?h2 ! c = (if c = i then last iter else iter ! c)"
        unfolding h2 using nth_gone[OF _ i(2)] by simp
      show "\<not> ?g (iter ! 0) (last iter)" unfolding l using T[of "?n - 1"] i(2) by simp
    qed
  next
    case False
    have h2: "?h2 = iter[i := (iter ! i)\<lparr>set_k := set_k (iter ! i) + 1\<rparr>]"
      using sort_key_next_stay[OF False] .
    show ?thesis
    proof (rule that[of ?n "(iter ! i)\<lparr>set_k := set_k (iter ! i) + 1\<rparr>"])
      show "length ?h2 = ?n" by (simp add: h2)
      show "?n \<le> ?n" by simp
      show "\<And>c. c < ?n \<Longrightarrow> ?h2 ! c =
          (if c = i then (iter ! i)\<lparr>set_k := set_k (iter ! i) + 1\<rparr> else iter ! c)"
        unfolding h2 by (simp add: nth_list_update)
      show "0 < i \<Longrightarrow> \<not> ?g (iter ! 0) ((iter ! i)\<lparr>set_k := set_k (iter ! i) + 1\<rparr>)"
        using advanced_not_below_top[OF inv _ i(2) False] by simp
    qed
  qed
  show ?thesis
    unfolding heap_except_def len
  proof (intro conjI allI impI)
    fix c assume c: "0 < c \<and> c < n2 \<and> (c - 1) div 2 \<noteq> i"
    then have pl: "(c - 1) div 2 < n2" "(c - 1) div 2 < c" using parent_less[of c] by auto
    show "\<not> ?g (?h2 ! ((c - 1) div 2)) (?h2 ! c)"
    proof (cases "c = i")
      case True
      then have "0 < i" "i < n2" using c by auto
      from N[OF this] show ?thesis
        using True pi nth[of 0] nth[of i] c by auto
    next
      case False
      then show ?thesis
        using nth[of c] nth[OF pl(1)] c H[of c] len by auto
    qed
  next
    fix c assume i0: "0 < i" and c: "0 < c \<and> c < n2 \<and> (c - 1) div 2 = i"
    then have "c \<noteq> i" using parent_less[of c] by auto
    then show "\<not> ?g (?h2 ! ((i - 1) div 2)) (?h2 ! c)"
      using pi nth[of 0] nth[of c] c i0 T[of c] len by auto
  qed
qed

lemma sift_after_next:
  assumes inv: "ext_inv m iter" and i: "i \<le> 2" "i < length iter"
  shows "\<exists>iter'. heap_sift (bch_extent_sort_cmp m) (sort_key_next iter i) i = Some iter' \<and>
           ext_inv m iter' \<and> mset iter' = mset (sort_key_next iter i) \<and>
           (0 < i \<longrightarrow> iter' ! 0 = iter ! 0)"
proof -
  have ok: "runs_ok m iter" using inv by (simp add: ext_inv_def)
  from ext_heap_sift[OF runs_ok_next[OF ok i(2)] heap_except_next[OF inv i]]
  obtain h' where h': "heap_sift (bch_extent_sort_cmp m) (sort_key_next iter i) i = Some h'"
    "ext_inv m h'" "mset h' = mset (sort_key_next iter i)"
    "\<forall>t<i. h' ! t = sort_key_next iter i ! t"
    by blast
  have "sort_key_next iter i ! 0 = iter ! 0" if "0 < i"
  proof (cases "set_k (iter ! i) + 1 = set_end (iter ! i)")
    case True
    then show ?thesis
      using that i nth_gone[of 0 iter i] by (simp add: sort_key_next_gone)
  next
    case False
    then show ?thesis using that by (simp add: sort_key_next_stay)
  qed
  then show ?thesis using h' by auto
qed

lemma sift_after_cut:
  assumes inv: "ext_inv m iter" and i: "0 < i" "i \<le> 2" "i < length iter"
    and v: "key_valid ik'" and e: "kend ik' \<le> kend (m ! set_k (iter ! i))"
    and lo: "kstart (m ! set_k (iter ! 0)) \<le> kstart ik'"
    and tie: "kstart (m ! set_k (iter ! 0)) = kstart ik' \<longrightarrow> set_k (iter ! i) < set_k (iter ! 0)"
  shows "\<exists>iter'. heap_sift (bch_extent_sort_cmp (m[set_k (iter ! i) := ik'])) iter i = Some iter' \<and>
           ext_inv (m[set_k (iter ! i) := ik']) iter' \<and> mset iter' = mset iter \<and>
           iter' ! 0 = iter ! 0"
proof -
  let ?q = "set_k (iter ! i)" and ?t = "set_k (iter ! 0)"
  let ?m' = "m[?q := ik']"
  let ?g = "extent_gt m" and ?g' = "extent_gt ?m'"
  have ok: "runs_ok m iter" using inv by (simp add: ext_inv_def)
  have "0 < length iter" using i by linarith
  then have x: "iter ! i \<in> set iter" and t0: "iter ! 0 \<in> set iter" using i by simp_all
  have d: "distinct iter" using ok by (simp add: runs_ok_def)
  have ql: "?q < length m" using runs_ok_head[OF ok x] by simp
  have other: "\<And>c. c < length iter \<Longrightarrow> c \<noteq> i \<Longrightarrow> set_k (iter ! c) \<noteq> ?q"
  proof
    fix c assume c: "c < length iter" "c \<noteq> i" "set_k (iter ! c) = ?q"
    then have "iter ! c = iter ! i" using runs_ok_k_inj[OF ok _ x] by simp
    then show False using d c i by (simp add: nth_eq_iff_index_eq)
  qed
  have H: "\<And>c. 0 < c \<Longrightarrow> c < length iter \<Longrightarrow> \<not> ?g (iter ! ((c - 1) div 2)) (iter ! c)"
    using inv by (simp add: ext_inv_def is_heap_def)
  have T: "\<And>c. c < length iter \<Longrightarrow> \<not> ?g (iter ! 0) (iter ! c)"
    using ext_top_min[OF inv] .
  have pi: "(i - 1) div 2 = 0" using i(2) by presburger
  have ok': "runs_ok ?m' iter" using runs_ok_update[OF ok x v e] .
  have tq: "?t \<noteq> ?q" using other[of 0] i \<open>0 < length iter\<close> by simp
  have N: "\<not> ?g' (iter ! 0) (iter ! i)"
    using lo tie ql tq by (auto simp: extent_gt_def)
  have ex: "heap_except ?g' iter i"
    unfolding heap_except_def
  proof (intro conjI allI impI)
    fix c assume c: "0 < c \<and> c < length iter \<and> (c - 1) div 2 \<noteq> i"
    then have pl: "(c - 1) div 2 < length iter" using parent_less[of c] by auto
    show "\<not> ?g' (iter ! ((c - 1) div 2)) (iter ! c)"
    proof (cases "c = i")
      case True
      then show ?thesis using N pi by simp
    next
      case False
      from other[OF _ False] other[OF pl] c
      have "?g' (iter ! ((c - 1) div 2)) (iter ! c) = ?g (iter ! ((c - 1) div 2)) (iter ! c)"
        by (intro extent_gt_update_other) auto
      then show ?thesis using H[of c] c by simp
    qed
  next
    fix c assume c: "0 < c \<and> c < length iter \<and> (c - 1) div 2 = i"
    then have ci: "c \<noteq> i" using parent_less[of c] by auto
    from other[OF _ ci] tq c
    have "?g' (iter ! 0) (iter ! c) = ?g (iter ! 0) (iter ! c)"
      by (intro extent_gt_update_other) auto
    then show "\<not> ?g' (iter ! ((i - 1) div 2)) (iter ! c)"
      using T[of c] c pi by simp
  qed
  from ext_heap_sift[OF ok' ex] i(1) show ?thesis by auto
qed

lemma ext_inv_cut_back:
  assumes inv: "ext_inv m iter" and ne: "iter \<noteq> []"
    and v: "key_valid tk'" and e: "kend tk' \<le> kend (m ! set_k (iter ! 0))"
    and s: "kstart tk' = kstart (m ! set_k (iter ! 0))"
  shows "ext_inv (m[set_k (iter ! 0) := tk']) iter"
proof -
  have ok: "runs_ok m iter" using inv by (simp add: ext_inv_def)
  have t0: "iter ! 0 \<in> set iter" using ne by simp
  have tl: "set_k (iter ! 0) < length m" using runs_ok_head[OF ok t0] by simp
  have "extent_gt (m[set_k (iter ! 0) := tk']) = extent_gt m"
    using extent_gt_update_same_start[OF tl s] by (intro ext) simp
  then show ?thesis
    using inv runs_ok_update[OF ok t0 v e] by (simp add: ext_inv_def)
qed

lemma fixup_unfold:
  assumes "length iter > 1"
    and "(if length iter > 2 then bch_extent_sort_cmp m (iter ! 1) (iter ! 2) else Some False) = Some b"
    and "i = (if b then 2 else 1)"
    and "key_at m (set_k (iter ! 0)) = Some tk" and "key_at m (set_k (iter ! i)) = Some ik"
  shows "bch_extent_sort_fixup (m, iter) =
           (if bkey_cmp tk (START_KEY ik) \<le> 0 then Some (m, iter)
                     else if KEY_SIZE ik = 0 then
                       (case heap_sift (bch_extent_sort_cmp m) (sort_key_next iter i) i of
                          None \<Rightarrow> None
                        | Some iter' \<Rightarrow> bch_extent_sort_fixup (m, iter'))
                     else if set_k (iter ! 0) > set_k (iter ! i) then
                       (if bkey_cmp tk ik \<ge> 0 then
                          (case heap_sift (bch_extent_sort_cmp m) (sort_key_next iter i) i of
                             None \<Rightarrow> None
                           | Some iter' \<Rightarrow> bch_extent_sort_fixup (m, iter'))
                        else
                          (case bch_cut_front tk ik of
                             None \<Rightarrow> None
                           | Some ik' \<Rightarrow>
                               (case heap_sift (bch_extent_sort_cmp (m[set_k (iter ! i) := ik'])) iter i of
                                     None \<Rightarrow> None
                                   | Some iter' \<Rightarrow>
                                       bch_extent_sort_fixup (m[set_k (iter ! i) := ik'], iter'))))
                     else
                       (if bkey_cmp (START_KEY tk) (START_KEY ik) = 0 then None
                        else
                          (case bch_cut_back (START_KEY ik) tk of
                             None \<Rightarrow> None
                           | Some tk' \<Rightarrow>
                               bch_extent_sort_fixup (m[set_k (iter ! 0) := tk'], iter))))"
  using assms
  by (subst bch_extent_sort_fixup.simps) (cases b; simp add: Let_def cong: option.case_cong)

section \<open>One turn of the fixup loop on well-formed runs\<close>

text \<open>The entry the loop compares the top with: the smaller of the top's two children.\<close>

definition second :: "bkey list \<Rightarrow> btree_iter_set list \<Rightarrow> nat" where
  "second m iter = (if 2 < length iter \<and> extent_gt m (iter ! 1) (iter ! 2) then 2 else 1)"

text \<open>The loop has stopped: the top key ends at or before the start of every other head.\<close>

definition settled :: "bkey list \<Rightarrow> btree_iter_set list \<Rightarrow> bool" where
  "settled m iter \<longleftrightarrow>
     (\<forall>c. 0 < c \<and> c < length iter \<longrightarrow>
        kend (m ! set_k (iter ! 0)) \<le> kstart (m ! set_k (iter ! c)))"

text \<open>
  What one turn does, with \<open>t\<close> the address of the top key and \<open>q\<close> the address of the
  key it is compared with: the key at \<open>q\<close> is dropped (it has size 0, or it is older than
  the top and ends inside it), or it is older and is cut in front at the end of the top,
  or the top is older and is cut back at the start of the key at \<open>q\<close>.
\<close>

inductive ext_step ::
  "bkey list \<Rightarrow> btree_iter_set list \<Rightarrow> bkey list \<Rightarrow> btree_iter_set list \<Rightarrow> bool"
  for m :: "bkey list" and iter :: "btree_iter_set list" where
  drop: "\<lbrakk>i = second m iter; 0 < i; i < length iter; t = set_k (iter ! 0); q = set_k (iter ! i);
          kstart (m ! t) \<le> kstart (m ! q); kstart (m ! q) < kend (m ! t);
          KEY_SIZE (m ! q) = 0 \<or> (q < t \<and> kend (m ! q) \<le> kend (m ! t));
          mset iter' = mset (sort_key_next iter i); iter' ! 0 = iter ! 0\<rbrakk>
         \<Longrightarrow> ext_step m iter m iter'"
| cut_front: "\<lbrakk>i = second m iter; 0 < i; i < length iter; t = set_k (iter ! 0); q = set_k (iter ! i); q < t;
          kstart (m ! t) \<le> kstart (m ! q); kstart (m ! q) < kend (m ! t);
          kend (m ! t) < kend (m ! q);
          bch_cut_front (m ! t) (m ! q) = Some ik'; kstart ik' = kend (m ! t);
          kend ik' = kend (m ! q); mset iter' = mset iter; iter' ! 0 = iter ! 0\<rbrakk>
         \<Longrightarrow> ext_step m iter (m[q := ik']) iter'"
| cut_back: "\<lbrakk>i = second m iter; 0 < i; i < length iter; t = set_k (iter ! 0); q = set_k (iter ! i); t < q;
          KEY_SIZE (m ! q) \<noteq> 0; kstart (m ! t) < kstart (m ! q); kstart (m ! q) < kend (m ! t);
          bch_cut_back (START_KEY (m ! q)) (m ! t) = Some tk'; kstart tk' = kstart (m ! t);
          kend tk' = kstart (m ! q)\<rbrakk>
         \<Longrightarrow> ext_step m iter (m[t := tk']) iter"

lemma second_range: "1 < length iter \<Longrightarrow> 0 < second m iter \<and> second m iter < length iter \<and> second m iter \<le> 2"
  by (simp add: second_def)

lemma second_cmp:
  assumes "runs_ok m iter" and "1 < length iter"
  shows "(if length iter > 2 then bch_extent_sort_cmp m (iter ! 1) (iter ! 2) else Some False) =
           Some (2 < length iter \<and> extent_gt m (iter ! 1) (iter ! 2))"
proof (cases "2 < length iter")
  case True
  then have "iter ! 1 \<in> set iter" "iter ! 2 \<in> set iter" by simp_all
  with runs_ok_cmp[OF assms(1)] True show ?thesis by simp
next
  case False
  then show ?thesis by simp
qed

lemma second_min:
  assumes inv: "ext_inv m iter" and c: "0 < c" "c < length iter"
  shows "\<not> extent_gt m (iter ! second m iter) (iter ! c)"
  using c
proof (induction c rule: less_induct)
  case (less c)
  have H: "\<not> extent_gt m (iter ! ((c - 1) div 2)) (iter ! c)"
    using inv less.prems by (simp add: ext_inv_def is_heap_def)
  show ?case
  proof (cases "c \<le> 2")
    case True
    then have "c = 1 \<or> c = 2" using less.prems by linarith
    then show ?thesis
      using less.prems extent_gt_asym[of m "iter ! 1" "iter ! 2"]
        extent_gt_asym[of m "iter ! 1" "iter ! 1"] extent_gt_asym[of m "iter ! 2" "iter ! 2"]
      by (auto simp: second_def)
  next
    case False
    then have p: "0 < (c - 1) div 2" "(c - 1) div 2 < c" by presburger+
    with less.IH[of "(c - 1) div 2"] less.prems
    have "\<not> extent_gt m (iter ! second m iter) (iter ! ((c - 1) div 2))" by simp
    from extent_gt_trans[OF this H] show ?thesis .
  qed
qed

lemma not_gt_start: "\<not> extent_gt m x y \<Longrightarrow> kstart (m ! set_k x) \<le> kstart (m ! set_k y)"
  by (auto simp: extent_gt_def)

lemma length_sort_key_next: "i < length iter \<Longrightarrow> length iter - 1 \<le> length (sort_key_next iter i)"
  by (simp add: sort_key_next_def Let_def)

lemma fixup_step:
  assumes inv: "ext_inv m iter" and len: "1 < length iter"
  shows "(bch_extent_sort_fixup (m, iter) = Some (m, iter) \<and> settled m iter) \<or>
         (\<exists>m' iter'. ext_step m iter m' iter' \<and> ext_inv m' iter' \<and> iter' \<noteq> [] \<and>
            iter' ! 0 = iter ! 0 \<and>
            bch_extent_sort_fixup (m, iter) = bch_extent_sort_fixup (m', iter') \<and>
            ((m', iter'), (m, iter)) \<in> fixup_rel)"
proof -
  define i where "i = second m iter"
  define t where "t = set_k (iter ! 0)"
  define q where "q = set_k (iter ! i)"
  have ok: "runs_ok m iter" using inv by (simp add: ext_inv_def)
  have i: "0 < i" "i < length iter" "i \<le> 2"
    using second_range[OF len, of m] by (simp_all add: i_def)
  have l0: "0 < length iter" using len by linarith
  have mem: "iter ! 0 \<in> set iter" "iter ! i \<in> set iter" using l0 i(2) by simp_all
  have tl: "t < length m" and tv: "key_valid (m ! t)"
    using runs_ok_head[OF ok mem(1)] by (simp_all add: t_def)
  have ql: "q < length m" and qv: "key_valid (m ! q)"
    using runs_ok_head[OF ok mem(2)] by (simp_all add: q_def)
  have "distinct iter" using ok by (simp add: runs_ok_def)
  from nth_eq_iff_index_eq[OF this l0 i(2)] i(1)
  have "iter ! 0 \<noteq> iter ! i" by simp
  then have tq: "t \<noteq> q" using runs_ok_k_inj[OF ok mem] by (auto simp: t_def q_def)
  have top: "\<not> extent_gt m (iter ! 0) (iter ! i)" using ext_top_min[OF inv i(2)] .
  then have st: "kstart (m ! t) \<le> kstart (m ! q)"
    and tie: "kstart (m ! t) = kstart (m ! q) \<Longrightarrow> q < t"
    using tq by (auto simp: extent_gt_def t_def q_def)
  have kt: "key_at m (set_k (iter ! 0)) = Some (m ! t)"
    and kq: "key_at m (set_k (iter ! i)) = Some (m ! q)"
    using tl ql by (simp_all add: key_at_def t_def q_def)
  have isel: "i = (if 2 < length iter \<and> extent_gt m (iter ! 1) (iter ! 2) then 2 else 1)"
    by (simp add: i_def second_def)
  note unf = fixup_unfold[OF len second_cmp[OF ok len] isel kt kq, folded t_def q_def]
  have c1: "bkey_cmp (m ! t) (START_KEY (m ! q)) \<le> 0 \<longleftrightarrow> kend (m ! t) \<le> kstart (m ! q)"
    by (simp add: bkey_cmp_simps kend_def kstart_def)
  have c2: "bkey_cmp (m ! t) (m ! q) \<ge> 0 \<longleftrightarrow> kend (m ! q) \<le> kend (m ! t)"
    by (simp add: bkey_cmp_simps kend_def)
  have c3: "bkey_cmp (START_KEY (m ! t)) (START_KEY (m ! q)) = 0 \<longleftrightarrow> kstart (m ! t) = kstart (m ! q)"
    by (simp add: bkey_cmp_simps kstart_def word_unat_eq_iff)
  show ?thesis
  proof (cases "kend (m ! t) \<le> kstart (m ! q)")
    case True
    have "settled m iter"
      unfolding settled_def
    proof (intro allI impI)
      fix c assume c: "0 < c \<and> c < length iter"
      from second_min[OF inv, of c] c
      have "kstart (m ! q) \<le> kstart (m ! set_k (iter ! c))"
        by (auto simp: i_def q_def dest: not_gt_start)
      with True show "kend (m ! set_k (iter ! 0)) \<le> kstart (m ! set_k (iter ! c))"
        by (simp add: t_def)
    qed
    then show ?thesis using unf True c1 by simp
  next
    case ov: False
    show ?thesis
    proof (cases "KEY_SIZE (m ! q) = 0 \<or> (q < t \<and> kend (m ! q) \<le> kend (m ! t))")
      case True
      from sift_after_next[OF inv i(3,2)] i(1)
      obtain iter' where s: "heap_sift (bch_extent_sort_cmp m) (sort_key_next iter i) i = Some iter'"
        "ext_inv m iter'" "mset iter' = mset (sort_key_next iter i)" "iter' ! 0 = iter ! 0"
        by auto
      have eq: "bch_extent_sort_fixup (m, iter) = bch_extent_sort_fixup (m, iter')"
        using unf ov True c1 c2 s(1) by auto
      have "length iter' = length (sort_key_next iter i)"
        using s(3) by (metis size_mset)
      then have ne: "iter' \<noteq> []" using length_sort_key_next[OF i(2)] len by auto
      have step: "ext_step m iter m iter'"
        using i_def i(1,2) st ov True s(3,4)
        by (intro ext_step.drop[where i = i and t = t and q = q]) (simp_all add: t_def q_def)
      have rel: "((m, iter'), (m, iter)) \<in> fixup_rel"
        using s(1) i(2) kq by (intro fixup_rel_drop[where i = i and ik = "m ! q"]) simp_all
      show ?thesis using step s(2,4) ne eq rel by blast
    next
      case nd: False
      then have sz: "KEY_SIZE (m ! q) \<noteq> 0" by simp
      show ?thesis
      proof (cases "q < t")
        case True
        with nd have e: "kend (m ! t) < kend (m ! q)" by simp
        from cut_front_valid[OF qv _ e] ov
        obtain ik' where cf: "bch_cut_front (m ! t) (m ! q) = Some ik'" "kend ik' = kend (m ! q)"
          "kstart ik' = kend (m ! t)" "key_valid ik'"
          by auto
        have lo: "kstart (m ! set_k (iter ! 0)) \<le> kstart ik'"
          using cf(3) kstart_le_kend[OF tv] by (simp add: t_def)
        from sift_after_cut[OF inv i(1,3,2) cf(4) _ lo] cf(2) True
        obtain iter' where s: "heap_sift (bch_extent_sort_cmp (m[q := ik'])) iter i = Some iter'"
          "ext_inv (m[q := ik']) iter'" "mset iter' = mset iter" "iter' ! 0 = iter ! 0"
          by (auto simp: q_def t_def)
        have eq: "bch_extent_sort_fixup (m, iter) = bch_extent_sort_fixup (m[q := ik'], iter')"
          using unf ov sz True e c1 c2 cf(1) s(1) by auto
        have "length iter' = length iter" using s(3) by (metis size_mset)
        then have ne: "iter' \<noteq> []" using len by auto
        have step: "ext_step m iter (m[q := ik']) iter'"
          using i_def i(1,2) True st ov e cf s(3,4)
          by (intro ext_step.cut_front[where i = i and t = t and q = q]) (simp_all add: t_def q_def)
        have rel: "((m[q := ik'], iter'), (m, iter)) \<in> fixup_rel"
          using s(1) kq cf(1) ov e c1 c2
          by (intro fixup_rel_cut_front[where ik = "m ! q" and tk = "m ! t"]) (simp_all add: q_def)
        show ?thesis using step s(2,4) ne eq rel by blast
      next
        case False
        then have lt: "t < q" using tq by simp
        then have ss: "kstart (m ! t) < kstart (m ! q)" using st tie by fastforce
        from cut_back_valid[OF tv ss] ov
        obtain tk' where cb: "bch_cut_back (START_KEY (m ! q)) (m ! t) = Some tk'"
          "kend tk' = kstart (m ! q)" "kstart tk' = kstart (m ! t)" "key_valid tk'"
          by auto
        have inv': "ext_inv (m[t := tk']) iter"
          using ext_inv_cut_back[OF inv _ cb(4)] cb(2,3) ov l0 by (auto simp: t_def)
        have eq: "bch_extent_sort_fixup (m, iter) = bch_extent_sort_fixup (m[t := tk'], iter)"
          using unf ov sz False ss c1 c3 cb(1) by auto
        have step: "ext_step m iter (m[t := tk']) iter"
          using i_def i(1,2) lt sz ss ov cb
          by (intro ext_step.cut_back[where i = i and t = t and q = q]) (simp_all add: t_def q_def)
        have rel: "((m[t := tk'], iter), (m, iter)) \<in> fixup_rel"
          using kt cb(1) ov c1
          by (intro fixup_rel_cut_back[where ik = "m ! q" and tk = "m ! t"]) (simp_all add: t_def)
        show ?thesis using step inv' eq rel len by fastforce
      qed
    qed
  qed
qed

lemma fixup_short: "length iter \<le> 1 \<Longrightarrow> bch_extent_sort_fixup (m, iter) = Some (m, iter)"
  by (subst bch_extent_sort_fixup.simps) simp

lemma settled_short: "length iter \<le> 1 \<Longrightarrow> settled m iter"
  by (simp add: settled_def)

text \<open>
  The loop ends, on well-formed runs, in a well-formed settled state, and every property that
  each turn keeps holds there.
\<close>

lemma fixup_run:
  assumes inv: "ext_inv m iter" and ne: "iter \<noteq> []" and P: "P m iter"
    and step: "\<And>m iter m' iter'. ext_inv m iter \<Longrightarrow> P m iter \<Longrightarrow> ext_step m iter m' iter' \<Longrightarrow> P m' iter'"
  shows "\<exists>m' iter'. bch_extent_sort_fixup (m, iter) = Some (m', iter') \<and> ext_inv m' iter' \<and>
           iter' \<noteq> [] \<and> settled m' iter' \<and> P m' iter'"
  using wf_fixup_rel inv ne P
proof (induction "(m, iter)" arbitrary: m iter rule: wf_induct_rule)
  case less
  show ?case
  proof (cases "1 < length iter")
    case False
    then have "length iter \<le> 1" by simp
    from fixup_short[OF this, of m] settled_short[OF this, of m] less.prems
    show ?thesis by blast
  next
    case True
    from fixup_step[OF less.prems(1) True]
    show ?thesis
    proof
      assume "bch_extent_sort_fixup (m, iter) = Some (m, iter) \<and> settled m iter"
      then show ?thesis using less.prems by blast
    next
      assume "\<exists>m' iter'. ext_step m iter m' iter' \<and> ext_inv m' iter' \<and> iter' \<noteq> [] \<and>
            iter' ! 0 = iter ! 0 \<and>
            bch_extent_sort_fixup (m, iter) = bch_extent_sort_fixup (m', iter') \<and>
            ((m', iter'), (m, iter)) \<in> fixup_rel"
      then obtain m' iter' where s: "ext_step m iter m' iter'" "ext_inv m' iter'" "iter' \<noteq> []"
        "bch_extent_sort_fixup (m, iter) = bch_extent_sort_fixup (m', iter')"
        "((m', iter'), (m, iter)) \<in> fixup_rel"
        by blast
      from less.hyps[OF s(5) s(2) s(3) step[OF less.prems(1,3) s(1)]]
      show ?thesis using s(4) by simp
    qed
  qed
qed

subsection \<open>Keys of one run\<close>

lemma run_start_mono:
  assumes ok: "runs_ok m iter" and s: "s \<in> set iter"
  shows "set_k s \<le> a \<Longrightarrow> a \<le> b \<Longrightarrow> b < set_end s \<Longrightarrow> kstart (m ! a) \<le> kstart (m ! b)"
proof (induction b)
  case 0
  then show ?case by simp
next
  case (Suc b)
  show ?case
  proof (cases "a = Suc b")
    case True
    then show ?thesis by simp
  next
    case False
    then have ab: "a \<le> b" using Suc.prems by simp
    then have 1: "kstart (m ! a) \<le> kstart (m ! b)" using Suc by simp
    have "key_valid (m ! b)" using ok s Suc.prems ab unfolding runs_ok_def by auto
    then have 2: "kstart (m ! b) \<le> kend (m ! b)" by (rule kstart_le_kend)
    have 3: "kend (m ! b) \<le> kstart (m ! Suc b)"
      using ok s Suc.prems ab unfolding runs_ok_def by auto
    from 1 2 3 show ?thesis by linarith
  qed
qed

lemma run_end_le_start:
  assumes ok: "runs_ok m iter" and s: "s \<in> set iter"
    and "set_k s \<le> a" "a < b" "b < set_end s"
  shows "kend (m ! a) \<le> kstart (m ! b)"
proof -
  have "kend (m ! a) \<le> kstart (m ! Suc a)"
    using ok s assms(3-5) unfolding runs_ok_def by auto
  also have "\<dots> \<le> kstart (m ! b)"
    using run_start_mono[OF ok s, of "Suc a" b] assms(3-5) by simp
  finally show ?thesis .
qed

lemma segs_iff: "p \<in> segs iter \<longleftrightarrow> (\<exists>s\<in>set iter. set_k s \<le> p \<and> p < set_end s)"
  by (auto simp: segs_def)

lemma head_in_segs: "runs_ok m iter \<Longrightarrow> c < length iter \<Longrightarrow> set_k (iter ! c) \<in> segs iter"
  unfolding segs_iff runs_ok_def by (metis nth_mem order_refl)

lemma segs_valid: "runs_ok m iter \<Longrightarrow> p \<in> segs iter \<Longrightarrow> p < length m \<and> key_valid (m ! p)"
  unfolding segs_iff runs_ok_def by (meson less_le_trans)

text \<open>In a settled state the top key ends at or before the start of every other pending key.\<close>

lemma settled_all:
  assumes inv: "ext_inv m iter" and ne: "iter \<noteq> []" and st: "settled m iter"
    and p: "p \<in> segs iter" "p \<noteq> set_k (iter ! 0)"
  shows "kend (m ! set_k (iter ! 0)) \<le> kstart (m ! p)"
proof -
  have ok: "runs_ok m iter" using inv by (simp add: ext_inv_def)
  from p(1) obtain s where s: "s \<in> set iter" "set_k s \<le> p" "p < set_end s"
    unfolding segs_iff by blast
  then obtain c where c: "c < length iter" "s = iter ! c" by (metis in_set_conv_nth)
  show ?thesis
  proof (cases "c = 0")
    case True
    then have "set_k s < p" using s(2) p(2) c(2) by simp
    from run_end_le_start[OF ok s(1) order_refl this s(3)] True c(2) show ?thesis by simp
  next
    case False
    then have "kend (m ! set_k (iter ! 0)) \<le> kstart (m ! set_k s)"
      using st c unfolding settled_def by simp
    also have "\<dots> \<le> kstart (m ! p)" using run_start_mono[OF ok s(1) order_refl s(2,3)] .
    finally show ?thesis .
  qed
qed

subsection \<open>One emission\<close>

lemma emit_unfold:
  assumes inv: "ext_inv m iter" and ne: "iter \<noteq> []" and P: "P m iter"
    and step: "\<And>m iter m' iter'. ext_inv m iter \<Longrightarrow> P m iter \<Longrightarrow> ext_step m iter m' iter' \<Longrightarrow> P m' iter'"
  shows "\<exists>m' iter' iter''. ext_inv m' iter' \<and> iter' \<noteq> [] \<and> settled m' iter' \<and> P m' iter' \<and>
           ext_inv m' iter'' \<and> segs iter'' = segs iter' - {set_k (iter' ! 0)} \<and>
           emit_extents (m, iter) =
             map_option (Cons (set_k (iter' ! 0), m' ! set_k (iter' ! 0))) (emit_extents (m', iter'')) \<and>
           cursor_room m' iter'' < cursor_room m iter"
proof -
  have "\<exists>m' iter'. bch_extent_sort_fixup (m, iter) = Some (m', iter') \<and> ext_inv m' iter' \<and>
           iter' \<noteq> [] \<and> settled m' iter' \<and> P m' iter'"
    by (rule fixup_run[where P = P, OF inv ne P]) (rule step)
  then obtain m' iter' where f: "bch_extent_sort_fixup (m, iter) = Some (m', iter')" "ext_inv m' iter'"
    "iter' \<noteq> []" "settled m' iter'" "P m' iter'"
    by blast
  have ok: "runs_ok m' iter'" using f(2) by (simp add: ext_inv_def)
  have l0: "0 < length iter'" using f(3) by simp
  then have "iter' ! 0 \<in> set iter'" by simp
  from runs_ok_head[OF ok this]
  have tl: "set_k (iter' ! 0) < length m'" by simp
  then have k: "key_at m' (set_k (iter' ! 0)) = Some (m' ! set_k (iter' ! 0))"
    by (simp add: key_at_def)
  from sift_after_next[OF f(2) _ l0]
  obtain iter'' where s: "heap_sift (bch_extent_sort_cmp m') (sort_key_next iter' 0) 0 = Some iter''"
    "ext_inv m' iter''" "mset iter'' = mset (sort_key_next iter' 0)"
    by auto
  have sg: "segs iter'' = segs iter' - {set_k (iter' ! 0)}"
    using segs_mset[OF s(3)] segs_next[OF ok l0] by simp
  have e: "emit_extents (m, iter) =
             map_option (Cons (set_k (iter' ! 0), m' ! set_k (iter' ! 0))) (emit_extents (m', iter''))"
    using ne f(1,3) k s(1) by (subst emit_extents.simps) simp
  have "cursor_room m' iter'' = cursor_room m' (sort_key_next iter' 0)"
    using s(1) by (rule heap_sift_room)
  also have "\<dots> < cursor_room m' iter'" using l0 tl by (rule sort_key_next_room)
  also have "\<dots> \<le> cursor_room m iter" using fixup_room_le[OF f(1)] by simp
  finally have r: "cursor_room m' iter'' < cursor_room m iter" .
  show ?thesis using f(2-5) s(2) sg e r by blast
qed

lemma emit_empty: "emit_extents (m, []) = Some []"
  by (subst emit_extents.simps) simp

definition range_of :: "bkey \<Rightarrow> nat set" where
  "range_of k = {kstart k..<kend k}"

lemma range_disjoint_iff:
  "range_of a \<inter> range_of b = {} \<longleftrightarrow>
     kend a \<le> kstart a \<or> kend b \<le> kstart b \<or> kend a \<le> kstart b \<or> kend b \<le> kstart a"
  unfolding range_of_def by (auto simp: ivl_disj_int)


lemma size0_range: "key_valid k \<Longrightarrow> KEY_SIZE k = 0 \<Longrightarrow> kstart k = kend k"
  by (simp add: kstart_eq)

subsection \<open>What one turn keeps\<close>

lemma ext_step_segs:
  assumes inv: "ext_inv m iter" and step: "ext_step m iter m' iter'"
  shows "segs iter' \<subseteq> segs iter"
proof -
  have ok: "runs_ok m iter" using inv by (simp add: ext_inv_def)
  from step show ?thesis
  proof cases
    case (drop i t q)
    then show ?thesis using segs_mset[OF drop(10)] segs_next[OF ok drop(4)] by simp
  next
    case (cut_front i t q ik')
    then show ?thesis using segs_mset[of iter' iter] by simp
  next
    case (cut_back i t q tk')
    then show ?thesis by simp
  qed
qed

lemma ext_step_shrink:
  assumes inv: "ext_inv m iter" and step: "ext_step m iter m' iter'" and p: "p \<in> segs iter"
  shows "kstart (m ! p) \<le> kstart (m' ! p) \<and> kend (m' ! p) \<le> kend (m ! p)"
proof -
  have ok: "runs_ok m iter" using inv by (simp add: ext_inv_def)
  have pl: "p < length m" using segs_valid[OF ok p] by simp
  from step show ?thesis
  proof cases
    case (drop i t q)
    then show ?thesis by simp
  next
    case (cut_front i t q ik')
    show ?thesis
    proof (cases "p = q")
      case True
      then show ?thesis using cut_front(1,9,12,13) pl by simp
    next
      case False
      then show ?thesis using cut_front(1) by simp
    qed
  next
    case (cut_back i t q tk')
    show ?thesis
    proof (cases "p = t")
      case True
      then show ?thesis using cut_back(1,11,13,14) pl by simp
    next
      case False
      then show ?thesis using cut_back(1) by simp
    qed
  qed
qed

text \<open>A turn on a size-0 second key drops that key and changes nothing else.\<close>

lemma ext_step_size0:
  assumes inv: "ext_inv m iter" and len: "1 < length iter" and step: "ext_step m iter m' iter'"
    and z: "KEY_SIZE (m ! set_k (iter ! second m iter)) = 0"
  shows "m' = m \<and> segs iter' = segs iter - {set_k (iter ! second m iter)}"
proof -
  have ok: "runs_ok m iter" using inv by (simp add: ext_inv_def)
  have "second m iter < length iter" using second_range[OF len] by simp
  from head_in_segs[OF ok this]
  have v: "key_valid (m ! set_k (iter ! second m iter))" using segs_valid[OF ok] by simp
  from step show ?thesis
  proof cases
    case (drop i t q)
    then show ?thesis using segs_mset[OF drop(10)] segs_next[OF ok drop(4)] by simp
  next
    case (cut_front i t q ik')
    then show ?thesis using size0_range[OF v z] by simp
  next
    case (cut_back i t q tk')
    then show ?thesis using z by simp
  qed
qed


section \<open>The emitted sequence\<close>

text \<open>Every pending key starts at or after \<open>lo\<close>.\<close>

definition low :: "nat \<Rightarrow> bkey list \<Rightarrow> btree_iter_set list \<Rightarrow> bool" where
  "low lo m iter \<longleftrightarrow> (\<forall>p\<in>segs iter. lo \<le> kstart (m ! p))"

text \<open>The ranges of a sequence follow one another from \<open>lo\<close> upwards.\<close>

fun chain :: "nat \<Rightarrow> (nat \<times> bkey) list \<Rightarrow> bool" where
  "chain lo [] = True"
| "chain lo (e # out) = (lo \<le> kstart (snd e) \<and> kstart (snd e) \<le> kend (snd e) \<and> chain (kend (snd e)) out)"

lemma low_step:
  assumes "ext_inv m iter" and "low lo m iter" and "ext_step m iter m' iter'"
  shows "low lo m' iter'"
  unfolding low_def
proof
  fix p assume "p \<in> segs iter'"
  then have p: "p \<in> segs iter" using ext_step_segs[OF assms(1,3)] by blast
  then have "lo \<le> kstart (m ! p)" using assms(2) by (simp add: low_def)
  then show "lo \<le> kstart (m' ! p)" using ext_step_shrink[OF assms(1,3) p] by linarith
qed

lemma emit_chain:
  assumes "ext_inv m iter" and "low lo m iter"
  shows "\<exists>out. emit_extents (m, iter) = Some out \<and> chain lo out"
  using assms
proof (induction "cursor_room m iter" arbitrary: m iter lo rule: less_induct)
  case less
  show ?case
  proof (cases "iter = []")
    case True
    then show ?thesis by (simp add: emit_empty)
  next
    case False
    have "\<exists>m' iter' iter''. ext_inv m' iter' \<and> iter' \<noteq> [] \<and> settled m' iter' \<and> low lo m' iter' \<and>
           ext_inv m' iter'' \<and> segs iter'' = segs iter' - {set_k (iter' ! 0)} \<and>
           emit_extents (m, iter) =
             map_option (Cons (set_k (iter' ! 0), m' ! set_k (iter' ! 0))) (emit_extents (m', iter'')) \<and>
           cursor_room m' iter'' < cursor_room m iter"
      by (rule emit_unfold[where P = "low lo", OF less.prems(1) False less.prems(2)]) (rule low_step)
    then obtain m' iter' iter'' where u: "ext_inv m' iter'" "iter' \<noteq> []" "settled m' iter'"
      "low lo m' iter'" "ext_inv m' iter''" "segs iter'' = segs iter' - {set_k (iter' ! 0)}"
      "emit_extents (m, iter) =
         map_option (Cons (set_k (iter' ! 0), m' ! set_k (iter' ! 0))) (emit_extents (m', iter''))"
      "cursor_room m' iter'' < cursor_room m iter"
      by blast
    let ?t = "set_k (iter' ! 0)"
    have ok: "runs_ok m' iter'" using u(1) by (simp add: ext_inv_def)
    have l0: "0 < length iter'" using u(2) by simp
    have ts: "?t \<in> segs iter'" using head_in_segs[OF ok l0] .
    have a: "lo \<le> kstart (m' ! ?t)" using u(4) ts by (simp add: low_def)
    have b: "kstart (m' ! ?t) \<le> kend (m' ! ?t)" using segs_valid[OF ok ts] kstart_le_kend by simp
    have "low (kend (m' ! ?t)) m' iter''"
      unfolding low_def u(6) using settled_all[OF u(1,2,3)] by simp
    from less.hyps[OF u(8) u(5) this]
    obtain out where "emit_extents (m', iter'') = Some out" "chain (kend (m' ! ?t)) out" by blast
    then show ?thesis using u(7) a b by simp
  qed
qed

lemma chain_lower: "chain lo out \<Longrightarrow> e \<in> set out \<Longrightarrow> lo \<le> kstart (snd e)"
proof (induction out arbitrary: lo)
  case Nil
  then show ?case by simp
next
  case (Cons a out)
  then show ?case by (auto dest: Cons.IH)
qed

lemma chain_sorted:
  "chain lo out \<Longrightarrow> i < j \<Longrightarrow> j < length out \<Longrightarrow> kend (snd (out ! i)) \<le> kstart (snd (out ! j))"
proof (induction out arbitrary: lo i j)
  case Nil
  then show ?case by simp
next
  case (Cons a out)
  show ?case
  proof (cases i)
    case 0
    then obtain j' where j: "j = Suc j'" using Cons.prems(2) by (cases j) simp_all
    then have "out ! j' \<in> set out" using Cons.prems(3) by simp
    from chain_lower[OF _ this, of "kend (snd a)"] Cons.prems(1) 0 j show ?thesis by simp
  next
    case (Suc i')
    then obtain j' where j: "j = Suc j'" using Cons.prems(2) by (cases j) simp_all
    from Cons.IH[of "kend (snd a)" i' j'] Cons.prems Suc j show ?thesis by simp
  qed
qed

text \<open>Every emitted address was pending.\<close>

definition within :: "nat set \<Rightarrow> bkey list \<Rightarrow> btree_iter_set list \<Rightarrow> bool" where
  "within S m iter \<longleftrightarrow> segs iter \<subseteq> S"

lemma within_step:
  assumes "ext_inv m iter" and "within S m iter" and "ext_step m iter m' iter'"
  shows "within S m' iter'"
  using ext_step_segs[OF assms(1,3)] assms(2) unfolding within_def by blast

lemma emit_within:
  assumes "ext_inv m iter" and "within S m iter"
  shows "\<exists>out. emit_extents (m, iter) = Some out \<and> fst ` set out \<subseteq> S"
  using assms
proof (induction "cursor_room m iter" arbitrary: m iter rule: less_induct)
  case less
  show ?case
  proof (cases "iter = []")
    case True
    then show ?thesis by (simp add: emit_empty)
  next
    case False
    have "\<exists>m' iter' iter''. ext_inv m' iter' \<and> iter' \<noteq> [] \<and> settled m' iter' \<and> within S m' iter' \<and>
           ext_inv m' iter'' \<and> segs iter'' = segs iter' - {set_k (iter' ! 0)} \<and>
           emit_extents (m, iter) =
             map_option (Cons (set_k (iter' ! 0), m' ! set_k (iter' ! 0))) (emit_extents (m', iter'')) \<and>
           cursor_room m' iter'' < cursor_room m iter"
      by (rule emit_unfold[where P = "within S", OF less.prems(1) False less.prems(2)])
        (rule within_step)
    then obtain m' iter' iter'' where u: "ext_inv m' iter'" "iter' \<noteq> []" "settled m' iter'"
      "within S m' iter'" "ext_inv m' iter''" "segs iter'' = segs iter' - {set_k (iter' ! 0)}"
      "emit_extents (m, iter) =
         map_option (Cons (set_k (iter' ! 0), m' ! set_k (iter' ! 0))) (emit_extents (m', iter''))"
      "cursor_room m' iter'' < cursor_room m iter"
      by blast
    let ?t = "set_k (iter' ! 0)"
    have ok: "runs_ok m' iter'" using u(1) by (simp add: ext_inv_def)
    have l0: "0 < length iter'" using u(2) by simp
    have ts: "?t \<in> S" using head_in_segs[OF ok l0] u(4) unfolding within_def by blast
    have "within S m' iter''" using u(4,6) unfolding within_def by blast
    from less.hyps[OF u(8) u(5) this]
    obtain out where "emit_extents (m', iter'') = Some out" "fst ` set out \<subseteq> S" by blast
    then show ?thesis using u(7) ts by simp
  qed
qed





lemma emit_cong:
  "iter \<noteq> [] \<Longrightarrow> iter' \<noteq> [] \<Longrightarrow>
   bch_extent_sort_fixup (m, iter) = bch_extent_sort_fixup (m', iter') \<Longrightarrow>
   emit_extents (m, iter) = emit_extents (m', iter')"
  by (simp add: emit_extents.simps[of m iter] emit_extents.simps[of m' iter'])

section \<open>Example runs\<close>

text \<open>The extent \<open>[s, e)\<close> with one pointer, on device \<open>d\<close>.\<close>

definition ex_key :: "nat \<Rightarrow> nat \<Rightarrow> nat \<Rightarrow> bkey" where
  "ex_key d s e = \<lparr>KEY_OFFSET = of_nat e, KEY_SIZE = of_nat (e - s), KEY_PTRS = 1,
      KEY_DELETED = False, KEY_CACHED = False, KEY_CSUM = 0, ptr = (\<lambda>_. PTR 0 (of_nat s) (of_nat d))\<rparr>"

definition cur :: "nat \<Rightarrow> nat \<Rightarrow> btree_iter_set" where
  "cur a b = \<lparr>set_k = a, set_end = b\<rparr>"

text \<open>Of each emitted key: its address, its range and the device of its pointer.\<close>

definition emitted :: "(nat \<times> bkey) list option \<Rightarrow> (nat \<times> nat \<times> nat \<times> nat) list option" where
  "emitted = map_option (map (\<lambda>(p, k). (p, unat (KEY_START k), unat (KEY_OFFSET k), PTR_DEV k 0)))"

lemma all_range: "(\<forall>p. a \<le> p \<and> p < b \<longrightarrow> Q p) = list_all Q [a..<b]"
  by (auto simp: list_all_iff)

lemma all_range0: "(\<forall>p. 0 < p \<and> p < b \<longrightarrow> Q p) = list_all Q [1..<b]"
  by (auto simp: list_all_iff)

lemmas ex_inv_defs = ext_inv_def runs_ok_def is_heap_def all_range all_range0

lemmas ex_key_defs = cur_def ex_key_def key_valid_def kend_def kstart_def KEY_START_def
  extent_gt_def

text \<open>One run: the extents \<open>[0, 10)\<close> and \<open>[5, 15)\<close>.\<close>

definition ex_overlapping_run :: "bkey list \<times> btree_iter_set list" where
  "ex_overlapping_run = ([ex_key 1 0 10, ex_key 1 5 15], [cur 0 2])"

text \<open>
  Two runs: the older holds \<open>[0, 10)\<close> and \<open>[20, 30)\<close>, the newer \<open>[5, 25)\<close> and
  \<open>[28, 40)\<close>.
\<close>

definition ex_two_runs :: "bkey list \<times> btree_iter_set list" where
  "ex_two_runs = ([ex_key 1 0 10, ex_key 1 20 30, ex_key 2 5 25, ex_key 2 28 40], [cur 0 2, cur 2 4])"


text \<open>
  Three runs of one key each: \<open>[0, 100)\<close>, a key of size 0 at \<open>z\<close> and \<open>[600, 700)\<close>.
\<close>

definition ex_tombstone :: "nat \<Rightarrow> bkey list \<times> btree_iter_set list" where
  "ex_tombstone z = ([ex_key 1 0 100, ex_key 2 z z, ex_key 3 600 700], [cur 0 1, cur 1 2, cur 2 3])"

lemma ex_two_runs_inv: "case ex_two_runs of (m, iter) \<Rightarrow> ext_inv m iter"
  unfolding ex_two_runs_def prod.case ex_inv_defs by (simp add: ex_key_defs upt_rec)



text \<open>
  Five runs of one extent each, from the oldest: \<open>[60, 100)\<close>, \<open>[5, 100)\<close>, \<open>[0, 50)\<close>,
  \<open>[0, 20)\<close> and \<open>[3, 4)\<close>.
\<close>

definition ex_chain_runs :: "bkey list \<times> btree_iter_set list" where
  "ex_chain_runs = ([ex_key 1 60 100, ex_key 2 5 100, ex_key 3 0 50, ex_key 4 0 20, ex_key 5 3 4],
     [cur 3 4, cur 2 3, cur 4 5, cur 1 2, cur 0 1])"

lemma ex_chain_runs_inv: "case ex_chain_runs of (m, iter) \<Rightarrow> ext_inv m iter"
  unfolding ex_chain_runs_def prod.case ex_inv_defs by (simp add: ex_key_defs upt_rec)


lemma ex_tombstone_500_inv: "case ex_tombstone 500 of (m, iter) \<Rightarrow> ext_inv m iter"
  unfolding ex_tombstone_def prod.case ex_inv_defs by (simp add: ex_key_defs upt_rec)

lemma ex_tombstone_50_inv: "case ex_tombstone 50 of (m, iter) \<Rightarrow> ext_inv m iter"
  unfolding ex_tombstone_def prod.case ex_inv_defs by (simp add: ex_key_defs upt_rec)

section \<open>Emitting one run again\<close>

definition single_run :: "bkey list \<Rightarrow> btree_iter_set list" where
  "single_run ks = (if ks = [] then [] else [\<lparr>set_k = 0, set_end = length ks\<rparr>])"

lemma emit_single:
  "a < length ks \<Longrightarrow>
   emit_extents (ks, [\<lparr>set_k = a, set_end = length ks\<rparr>]) = Some (zip [a..<length ks] (drop a ks))"
proof (induction "length ks - a" arbitrary: a)
  case 0
  then show ?case by simp
next
  case (Suc n)
  let ?s = "\<lparr>set_k = a, set_end = length ks\<rparr>"
  have f: "bch_extent_sort_fixup (ks, [?s]) = Some (ks, [?s])" by (simp add: fixup_short)
  have k: "key_at ks a = Some (ks ! a)" using Suc.prems by (simp add: key_at_def)
  have z: "zip [a..<length ks] (drop a ks) = (a, ks ! a) # zip [Suc a..<length ks] (drop (Suc a) ks)"
    using Suc.prems by (simp add: upt_conv_Cons Cons_nth_drop_Suc[symmetric])
  show ?case
  proof (cases "Suc a = length ks")
    case True
    then have n: "sort_key_next [?s] 0 = []" by (simp add: sort_key_next_def)
    have "emit_extents (ks, [?s]) = Some [(a, ks ! a)]"
      by (subst emit_extents.simps) (simp add: f k n heap_sift_leaf emit_empty)
    then show ?thesis using z True by simp
  next
    case False
    then have n: "sort_key_next [?s] 0 = [\<lparr>set_k = Suc a, set_end = length ks\<rparr>]"
      by (simp add: sort_key_next_def)
    have l: "Suc a < length ks" using False Suc.prems by simp
    have "n = length ks - Suc a" using Suc.hyps(2) by simp
    from Suc.hyps(1)[OF this l]
    have "emit_extents (ks, [?s]) = Some ((a, ks ! a) # zip [Suc a..<length ks] (drop (Suc a) ks))"
      by (subst emit_extents.simps) (simp add: f k n heap_sift_leaf)
    then show ?thesis using z by simp
  qed
qed

section \<open>A piece of a key\<close>

lemma PTR_DEV_SET [simp]: "PTR_DEV (SET_PTR_OFFSET k i v) j = PTR_DEV k j"
proof -
  have "take_bit 12 (drop_bit 51 ((ptr k i AND NOT (push_bit 8 (mask 43))) OR push_bit 8 (take_bit 43 v)))
      = take_bit 12 (drop_bit 51 (ptr k i))"
    by (rule bit_word_eqI) (auto simp: bit_simps)
  then show ?thesis by (simp add: PTR_DEV_def SET_PTR_OFFSET_def)
qed

lemma PTR_GEN_SET [simp]: "PTR_GEN (SET_PTR_OFFSET k i v) j = PTR_GEN k j"
proof -
  have "take_bit 8 ((ptr k i AND NOT (push_bit 8 (mask 43))) OR push_bit 8 (take_bit 43 v))
      = take_bit 8 (ptr k i)"
    by (rule bit_word_eqI) (auto simp: bit_simps)
  then show ?thesis by (simp add: PTR_GEN_def SET_PTR_OFFSET_def)
qed

lemma PTR_DEV_advance [simp]: "PTR_DEV (advance_ptrs is d k) j = PTR_DEV k j"
  by (induction "is" arbitrary: k) simp_all

lemma PTR_GEN_advance [simp]: "PTR_GEN (advance_ptrs is d k) j = PTR_GEN k j"
  by (induction "is" arbitrary: k) simp_all








section \<open>The newest key over an address\<close>













section \<open>The fixup of pointer keys\<close>






section \<open>The merge of pointer keys\<close>



section \<open>Well-formed runs of pointer keys\<close>

text \<open>
  Pointer keys are ordered by their offset alone: for the heap they are the extents of
  size 0 at the same offsets.
\<close>

definition flat :: "bkey list \<Rightarrow> bkey list" where
  "flat m = map (\<lambda>k. k\<lparr>KEY_SIZE := 0\<rparr>) m"

lemma length_flat [simp]: "length (flat m) = length m"
  by (simp add: flat_def)


lemma kstart_flat [simp]: "p < length m \<Longrightarrow> kstart (flat m ! p) = kend (m ! p)"
  by (simp add: flat_def kstart_def kend_def KEY_START_def)

lemma kend_flat [simp]: "p < length m \<Longrightarrow> kend (flat m ! p) = kend (m ! p)"
  by (simp add: flat_def kend_def)

















subsection \<open>One emission\<close>



section \<open>The emitted pointer keys\<close>





section \<open>Claims about the validity check\<close>

text \<open>
  C3, as the code has it: for a cached extent that is not deleted, is structurally valid
  and has at least one available pointer, a pointer of staleness distance 1 (bucket
  generation 10, pointer generation 9) makes \<open>bch_extent_bad\<close> return true, as a pointer
  of staleness distance 97 (bucket generation 107, pointer generation 10) does.
\<close>

theorem C3_stale_cached_is_bad:
  assumes "KEY_CACHED k" and "\<not> KEY_DELETED k" and "\<not> fst (bch_extent_invalid c k)"
    and "\<exists>j<KEY_PTRS k. ptr_available c k j"
    and "i < KEY_PTRS k" and "ptr_stale c k i = Some d" and "d = 1 \<or> d = 97"
  shows "\<exists>rs. bch_extent_bad c k = Some (True, rs)"
proof (cases "\<forall>j<KEY_PTRS k. ptr_available c k j")
  case True
  have "\<exists>rs. extent_bad_loop c k [0..<KEY_PTRS k] = Some (True, rs)"
  proof (rule loop_stale_bad)
    show "\<forall>i\<in>set [0..<KEY_PTRS k]. ptr_available c k i"
      using True by simp
    have "i \<in> set [0..<KEY_PTRS k]" "ptr_stale c k i \<noteq> Some 0"
      using assms by auto
    then show "\<exists>i\<in>set [0..<KEY_PTRS k]. ptr_stale c k i \<noteq> Some 0"
      by blast
  qed
  then show ?thesis
    using assms True by (auto simp: bch_extent_bad_def list_ex_iff split: prod.splits)
next
  case False
  then have "list_ex (\<lambda>i. \<not> ptr_available c k i) [0..<KEY_PTRS k]"
    by (auto simp: list_ex_iff)
  then show ?thesis
    using assms by (auto simp: bch_extent_bad_def split: prod.splits)
qed

text \<open>
  The witness: the cached extent whose pointer is one generation behind its bucket, and
  the one whose pointer is 97 generations behind.
\<close>

theorem C3_stale_cached_is_bad_witness:
  "ptr_stale (ex_cache_set False) (ex_extent True (PTR 9 0 0)) 0 = Some 1 \<and>
   (\<exists>rs. bch_extent_bad (ex_cache_set False) (ex_extent True (PTR 9 0 0)) = Some (True, rs)) \<and>
   ptr_stale (ex_cache_set False) (ex_extent True (PTR 10 1024 0)) 0 = Some 97 \<and>
   (\<exists>rs. bch_extent_bad (ex_cache_set False) (ex_extent True (PTR 10 1024 0)) = Some (True, rs))"
proof -
  have a: "\<not> fst (bch_extent_invalid (ex_cache_set False) (ex_extent True (PTR 9 0 0)))"
    "\<not> fst (bch_extent_invalid (ex_cache_set False) (ex_extent True (PTR 10 1024 0)))"
    by (simp_all add: bch_extent_invalid_def ptr_invalid_def ptr_defs ex_defs)
  have b: "\<exists>j<KEY_PTRS (ex_extent True (PTR 9 0 0)).
      ptr_available (ex_cache_set False) (ex_extent True (PTR 9 0 0)) j"
    "\<exists>j<KEY_PTRS (ex_extent True (PTR 10 1024 0)).
      ptr_available (ex_cache_set False) (ex_extent True (PTR 10 1024 0)) j"
    by (simp_all add: ptr_defs ex_defs)
  have c: "KEY_CACHED (ex_extent True p)" "\<not> KEY_DELETED (ex_extent True p)"
    "0 < KEY_PTRS (ex_extent True p)" for p
    by (simp_all add: ex_extent_def)
  have 1: "\<exists>rs. bch_extent_bad (ex_cache_set False) (ex_extent True (PTR 9 0 0)) = Some (True, rs)"
    using C3_stale_cached_is_bad[OF c(1,2) a(1) b(1) c(3) ex_stale_1[of False True]] by simp
  have 2: "\<exists>rs. bch_extent_bad (ex_cache_set False) (ex_extent True (PTR 10 1024 0)) = Some (True, rs)"
    using C3_stale_cached_is_bad[OF c(1,2) a(2) b(2) c(3) ex_stale_97[of False True]] by simp
  show ?thesis using 1 2 ex_stale_1[of False True] ex_stale_97[of False True] by simp
qed

text \<open>
  C3 as stated fails at its own example: bucket generation 10, pointer generation 9 on a
  cached key is distance 1, and \<open>bch_extent_bad\<close> returns true.
\<close>

theorem C3_distance_one_counterexample:
  "KEY_CACHED (ex_extent True (PTR 9 0 0)) \<and>
   ptr_stale (ex_cache_set False) (ex_extent True (PTR 9 0 0)) 0 = Some 1 \<and>
   bch_extent_bad (ex_cache_set False) (ex_extent True (PTR 9 0 0)) = Some (True, [])"
  by (simp add: bch_extent_bad_def bch_extent_invalid_def ptr_invalid_def ptr_defs ex_defs)

text \<open>
  C4, as the code has it: for a dirty extent of non-zero size that is not deleted, is
  structurally valid, has every pointer available and has a pointer of staleness distance
  other than 0: with the expensive checks enabled the key is bad and an inconsistency is
  reported (the stale dirty pointer, or the garbage-collection mark of an earlier
  pointer); with the expensive checks disabled \<open>bch_extent_bad\<close> returns false before it
  looks at any generation, and reports nothing.
\<close>

theorem C4_stale_dirty:
  assumes "\<not> KEY_CACHED k" and "KEY_SIZE k \<noteq> 0" and "\<not> KEY_DELETED k" and "KEY_PTRS k \<noteq> 0"
    and "\<not> fst (bch_extent_invalid c k)"
    and "\<forall>i<KEY_PTRS k. ptr_available c k i"
    and "i < KEY_PTRS k" and "ptr_stale c k i = Some d" and "d \<noteq> 0"
  shows "(expensive_debug_checks c \<longrightarrow>
           (\<exists>rs. bch_extent_bad c k = Some (True, rs) \<and>
              (Stale_dirty_pointer \<in> set rs \<or> (\<exists>p. Inconsistent_extent_pointer p \<in> set rs)))) \<and>
         (\<not> expensive_debug_checks c \<longrightarrow> bch_extent_bad c k = Some (False, []))"
proof -
  have "\<exists>rs. extent_bad_loop c k [0..<KEY_PTRS k] = Some (True, rs) \<and>
      (Stale_dirty_pointer \<in> set rs \<or> (\<exists>p. Inconsistent_extent_pointer p \<in> set rs))"
  proof (rule loop_stale_dirty)
    show "\<forall>i\<in>set [0..<KEY_PTRS k]. ptr_available c k i"
      using assms by simp
    have "i \<in> set [0..<KEY_PTRS k]" "ptr_stale c k i \<noteq> Some 0"
      using assms by simp_all
    then show "\<exists>i\<in>set [0..<KEY_PTRS k]. ptr_stale c k i \<noteq> Some 0"
      by blast
  qed (use assms in simp_all)
  moreover have "snd (bch_extent_invalid c k) = []"
    using assms(5) by (auto simp: bch_extent_invalid_def split: if_splits)
  ultimately show ?thesis
    using assms by (auto simp: bch_extent_bad_def list_ex_iff split: prod.splits)
qed

text \<open>The witness: the dirty extent one generation behind, with the expensive checks on.\<close>

theorem C4_stale_dirty_witness:
  "expensive_debug_checks (ex_cache_set True) \<and>
   (\<exists>rs. bch_extent_bad (ex_cache_set True) (ex_extent False (PTR 9 0 0)) = Some (True, rs) \<and>
      (Stale_dirty_pointer \<in> set rs \<or> (\<exists>p. Inconsistent_extent_pointer p \<in> set rs)))"
proof -
  have "\<not> fst (bch_extent_invalid (ex_cache_set True) (ex_extent False (PTR 9 0 0)))"
    by (simp add: bch_extent_invalid_def ptr_invalid_def ptr_defs ex_defs)
  moreover have "\<forall>i<KEY_PTRS (ex_extent False (PTR 9 0 0)).
      ptr_available (ex_cache_set True) (ex_extent False (PTR 9 0 0)) i"
    by (simp add: ptr_defs ex_defs)
  moreover have "expensive_debug_checks (ex_cache_set True)"
    by (simp add: ex_cache_set_def)
  ultimately show ?thesis
    using C4_stale_dirty[of "ex_extent False (PTR 9 0 0)" "ex_cache_set True" 0 1]
      ex_stale_1[of True False]
    by (simp add: ex_extent_def)
qed

text \<open>
  C4 as stated fails with the expensive checks disabled: the dirty extent one generation
  behind its bucket is classified as not bad, and nothing is reported.
\<close>

theorem C4_checks_disabled_counterexample:
  "\<not> KEY_CACHED (ex_extent False (PTR 9 0 0)) \<and>
   \<not> expensive_debug_checks (ex_cache_set False) \<and>
   ptr_stale (ex_cache_set False) (ex_extent False (PTR 9 0 0)) 0 = Some 1 \<and>
   bch_extent_bad (ex_cache_set False) (ex_extent False (PTR 9 0 0)) = Some (False, [])"
  by (simp add: bch_extent_bad_def bch_extent_invalid_def ptr_invalid_def ptr_defs ex_defs)

section \<open>Claims about merging\<close>

text \<open>
  C7: for adjacent mergeable extents \<open>l\<close> and \<open>r\<close> (merging enabled, same pointer count
  and flags, \<open>l\<close> ends where \<open>r\<close> starts, every pointer of \<open>r\<close> is the pointer of \<open>l\<close>
  advanced by the size of \<open>l\<close> in the same bucket, \<open>r\<close> no larger than its offset) whose
  sizes sum to more than 65535, \<open>bch_extent_merge\<close> returns false; \<open>l\<close> has size 65535
  and its end advanced by the amount consumed, 65535 less its old size, its start
  unchanged; \<open>r\<close> keeps its end, its size shrinks and its start and pointers advance by
  that amount; and \<open>l\<close> ends where \<open>r\<close> now starts.
\<close>

theorem C7_merge_overflow:
  assumes en: "\<not> key_merging_disabled c"
    and ptrs: "KEY_PTRS l = KEY_PTRS r"
    and del: "KEY_DELETED l = KEY_DELETED r"
    and cached: "KEY_CACHED l = KEY_CACHED r"
    and adj: "KEY_OFFSET l = KEY_START r"
    and pm: "\<forall>i<KEY_PTRS l. ptr r i = ptr l i + PTR 0 (ucast (KEY_SIZE l)) 0 \<and>
               PTR_BUCKET_NR c l i = PTR_BUCKET_NR c r i"
    and valid: "unat (KEY_SIZE r) \<le> unat (KEY_OFFSET r)"
    and ovf: "unat (KEY_SIZE l) + unat (KEY_SIZE r) > 65535"
  shows "\<exists>l' r'. bch_extent_merge c l r = Some (False, l', r') \<and>
     unat (KEY_SIZE l') = 65535 \<and>
     unat (KEY_OFFSET l') = unat (KEY_OFFSET l) + (65535 - unat (KEY_SIZE l)) \<and>
     KEY_START l' = KEY_START l \<and>
     KEY_OFFSET r' = KEY_OFFSET r \<and>
     unat (KEY_SIZE r') = unat (KEY_SIZE r) - (65535 - unat (KEY_SIZE l)) \<and>
     unat (KEY_START r') = unat (KEY_START r) + (65535 - unat (KEY_SIZE l)) \<and>
     KEY_OFFSET l' = KEY_START r' \<and>
     (\<forall>i<KEY_PTRS r. PTR_OFFSET r' i =
        take_bit 43 (PTR_OFFSET r i + of_nat (65535 - unat (KEY_SIZE l))))"
proof -
  define d where "d = 65535 - unat (KEY_SIZE l)"
  define l2 where "l2 = l\<lparr>KEY_OFFSET := KEY_OFFSET l + of_nat USHRT_MAX - ucast (KEY_SIZE l),
                          KEY_SIZE := of_nat USHRT_MAX\<rparr>"
  have sl: "unat (KEY_SIZE l) < 65536" and sr: "unat (KEY_SIZE r) < 65536"
    by (rule unat_size_lt)+
  have ro: "unat (KEY_OFFSET r) < 2 ^ 64"
    using unat_off_lt[of "KEY_OFFSET r"] by simp
  have lo: "unat (KEY_OFFSET l) = unat (KEY_OFFSET r) - unat (KEY_SIZE r)"
    using adj unat_KEY_START[OF valid] by simp
  have dlt: "d < unat (KEY_SIZE r)" "d \<le> 65535"
    using ovf sl by (auto simp: d_def)
  have "of_nat USHRT_MAX - ucast (KEY_SIZE l) = (of_nat d :: 64 word)"
    using sl by (simp add: USHRT_MAX_def d_def of_nat_diff)
  then have l2o: "KEY_OFFSET l2 = KEY_OFFSET l + of_nat d"
    by (simp add: l2_def add_diff_eq[symmetric])
  have ul2: "unat (KEY_OFFSET l2) = unat (KEY_OFFSET l) + d"
    unfolding l2o using lo dlt valid ro by (intro unat_add_nat) simp
  have l2s: "unat (KEY_SIZE l2) = 65535"
    by (simp add: l2_def USHRT_MAX_def)
  have l2start: "KEY_START l2 = KEY_START l"
    by (simp add: KEY_START_def l2_def USHRT_MAX_def)
  have m: "bch_extent_merge c l r = map_option (\<lambda>r'. (False, l2, r')) (bch_cut_front l2 r)"
    using en ptrs del cached adj pm ovf
    by (simp add: bch_extent_merge_def bkey_cmp_simps list_ex_iff l2_def Let_def USHRT_MAX_def)
  show ?thesis
  proof (cases "d = 0")
    case True
    then have "bch_cut_front l2 r = Some r"
      using ul2 lo valid adj by (simp add: bch_cut_front_def bkey_cmp_simps)
    then show ?thesis
      using m True ul2 l2s l2start l2o adj by (simp add: d_def[symmetric])
  next
    case False
    define len where "len = KEY_OFFSET r - KEY_OFFSET l2"
    have ulen: "unat len = unat (KEY_SIZE r) - d"
      unfolding len_def using ul2 lo valid dlt
      by (subst unat_sub) (simp_all add: word_le_nat_alt)
    define r2 where "r2 = advance_ptrs [0..<KEY_PTRS r] (ucast (KEY_SIZE r) - len) r"
    have cf: "bch_cut_front l2 r = Some (r2\<lparr>KEY_SIZE := ucast len\<rparr>)"
      using ul2 lo valid adj False dlt ulen unat_KEY_START[OF valid]
      by (simp add: bch_cut_front_def bkey_cmp_simps Let_def len_def[symmetric]
          r2_def[symmetric])
    have us: "unat (ucast len :: 16 word) = unat (KEY_SIZE r) - d"
      using ulen sr by (simp add: unat_ucast_64_16)
    have dd: "ucast (KEY_SIZE r) - len = (of_nat d :: 64 word)"
      by (simp add: len_def l2o adj KEY_START_def)
    have ptrs': "\<forall>i<KEY_PTRS r. PTR_OFFSET (r2\<lparr>KEY_SIZE := ucast len\<rparr>) i =
        take_bit 43 (PTR_OFFSET r i + of_nat d)"
      using PTR_OFFSET_advance[of "[0..<KEY_PTRS r]" "of_nat d" r]
      by (simp add: r2_def dd PTR_OFFSET_def)
    have st: "unat (KEY_START (r2\<lparr>KEY_SIZE := ucast len\<rparr>)) = unat (KEY_START r) + d"
      using unat_KEY_START[of "r2\<lparr>KEY_SIZE := ucast len\<rparr>"] us valid dlt
        unat_KEY_START[OF valid]
      by (simp add: r2_def)
    have ct: "KEY_OFFSET l2 = KEY_START (r2\<lparr>KEY_SIZE := ucast len\<rparr>)"
      using st ul2 adj by (simp add: word_unat_eq_iff)
    show ?thesis
      using m cf ul2 l2s l2start us st ct ptrs'
      by (simp add: d_def[symmetric] r2_def)
  qed
qed

text \<open>The witness: sizes 65530 and 20; five sectors move from \<open>r\<close> to \<open>l\<close>.\<close>

theorem C7_merge_overflow_witness:
  "\<exists>l' r'. bch_extent_merge (ex_cache_set False)
       (ex_bare 100000 65530 0 0) (ex_bare 100020 20 0 0) = Some (False, l', r') \<and>
     unat (KEY_SIZE l') = 65535 \<and> unat (KEY_OFFSET l') = 100005 \<and>
     unat (KEY_SIZE r') = 15 \<and> unat (KEY_OFFSET r') = 100020 \<and>
     KEY_OFFSET l' = KEY_START r'"
proof -
  let ?c = "ex_cache_set False" and ?l = "ex_bare 100000 65530 0 0" and ?r = "ex_bare 100020 20 0 0"
  have 1: "\<not> key_merging_disabled ?c"
    by (simp add: ex_cache_set_def)
  have 2: "KEY_PTRS ?l = KEY_PTRS ?r" "KEY_DELETED ?l = KEY_DELETED ?r"
    "KEY_CACHED ?l = KEY_CACHED ?r"
    by (simp_all add: ex_bare_def)
  have 3: "KEY_OFFSET ?l = KEY_START ?r"
    by (simp add: ex_bare_def KEY_START_def)
  have 4: "\<forall>i<KEY_PTRS ?l. ptr ?r i = ptr ?l i + PTR 0 (ucast (KEY_SIZE ?l)) 0 \<and>
               PTR_BUCKET_NR ?c ?l i = PTR_BUCKET_NR ?c ?r i"
    by (simp add: ex_bare_def)
  have 5: "unat (KEY_SIZE ?r) \<le> unat (KEY_OFFSET ?r)"
    "unat (KEY_SIZE ?l) + unat (KEY_SIZE ?r) > 65535"
    by (simp_all add: ex_bare_def)
  have 6: "unat (KEY_SIZE ?l) = 65530" "unat (KEY_SIZE ?r) = 20"
    "unat (KEY_OFFSET ?l) = 100000" "unat (KEY_OFFSET ?r) = 100020"
    by (simp_all add: ex_bare_def)
  from C7_merge_overflow[OF 1 2 3 4 5]
  obtain l' r' where m: "bch_extent_merge ?c ?l ?r = Some (False, l', r')"
    and "unat (KEY_SIZE l') = 65535"
    and "unat (KEY_OFFSET l') = unat (KEY_OFFSET ?l) + (65535 - unat (KEY_SIZE ?l))"
    and "KEY_OFFSET r' = KEY_OFFSET ?r"
    and "unat (KEY_SIZE r') = unat (KEY_SIZE ?r) - (65535 - unat (KEY_SIZE ?l))"
    and "KEY_OFFSET l' = KEY_START r'"
    by blast
  then show ?thesis
    using 6 by (intro exI[of _ l'] exI[of _ r']) simp
qed

text \<open>
  C9: when \<open>bch_extent_merge\<close> merges (returns true) and \<open>l\<close> carries a checksum: if \<open>r\<close>
  carries one too, the checksum slot of \<open>l\<close> holds the sum of the two checksums modulo
  2^64 with bit 63 cleared, a value below 2^63, and \<open>l\<close> still carries a checksum; if
  \<open>r\<close> carries none, the checksum flag of \<open>l\<close> is cleared.
\<close>

theorem C9_merge_checksum:
  assumes "bch_extent_merge c l r = Some (True, l', r')" and "KEY_CSUM l \<noteq> 0"
  shows "(KEY_CSUM r \<noteq> 0 \<longrightarrow>
            ptr l' (KEY_PTRS l') =
              (ptr l (KEY_PTRS l) + ptr r (KEY_PTRS r)) AND NOT (push_bit 63 1) \<and>
            ptr l' (KEY_PTRS l') = merge_chksums l r \<and>
            unat (ptr l' (KEY_PTRS l')) < 2 ^ 63 \<and>
            KEY_CSUM l' = KEY_CSUM l) \<and>
         (KEY_CSUM r = 0 \<longrightarrow> KEY_CSUM l' = 0)"
proof -
  have "unat (merge_chksums l r) < 2 ^ 63"
    unfolding merge_chksums_def by (rule and_not_bit63_less)
  then show ?thesis
    using assms
    by (auto simp: bch_extent_merge_def Let_def merge_chksums_def split: if_splits)
qed

text \<open>The witness: two adjacent extents whose checksums 2^63 + 5 and 7 combine to 12.\<close>

theorem C9_merge_checksum_witness:
  "\<exists>l' r'. bch_extent_merge (ex_cache_set False)
       (ex_bare 150 50 1 (2 ^ 63 + 5)) (ex_bare 180 30 1 7) = Some (True, l', r') \<and>
     ptr l' (KEY_PTRS l') = 12 \<and> KEY_CSUM l' = 1"
proof -
  have m: "bch_extent_merge (ex_cache_set False)
       (ex_bare 150 50 1 (2 ^ 63 + 5)) (ex_bare 180 30 1 7) =
     Some (True, (ex_bare 150 50 1 (2 ^ 63 + 5))\<lparr>ptr := (\<lambda>_. 2 ^ 63 + 5)(0 := 12),
        KEY_OFFSET := 180, KEY_SIZE := 80\<rparr>, ex_bare 180 30 1 7)"
    by (simp add: bch_extent_merge_def ex_bare_def ex_cache_set_def bkey_cmp_simps
        KEY_START_def USHRT_MAX_def merge_chksums_def)
  from C9_merge_checksum[OF m] show ?thesis
    unfolding m by (simp add: ex_bare_def merge_chksums_def)
qed

text \<open>
  C10: when merging is disabled or a compatibility precondition fails (differing pointer
  counts, differing deleted or cached flags, \<open>l\<close> not ending where \<open>r\<close> starts, or a
  pointer of \<open>r\<close> that is not the pointer of \<open>l\<close> advanced by the size of \<open>l\<close> in the
  same bucket), \<open>bch_extent_merge\<close> returns false and leaves both keys as they were; a
  call that returns false with a key changed has passed all of these checks and is on
  the size-overflow path.
\<close>

theorem C10_merge_refusal_frame:
  "(key_merging_disabled c \<or> KEY_PTRS l \<noteq> KEY_PTRS r \<or> KEY_DELETED l \<noteq> KEY_DELETED r \<or>
    KEY_CACHED l \<noteq> KEY_CACHED r \<or> bkey_cmp l (START_KEY r) \<noteq> 0 \<or>
    (\<exists>i<KEY_PTRS l. ptr r i \<noteq> ptr l i + PTR 0 (ucast (KEY_SIZE l)) 0 \<or>
                    PTR_BUCKET_NR c l i \<noteq> PTR_BUCKET_NR c r i)
      \<longrightarrow> bch_extent_merge c l r = Some (False, l, r)) \<and>
   (\<forall>l' r'. bch_extent_merge c l r = Some (False, l', r') \<and> (l' \<noteq> l \<or> r' \<noteq> r) \<longrightarrow>
      \<not> key_merging_disabled c \<and> KEY_PTRS l = KEY_PTRS r \<and> KEY_DELETED l = KEY_DELETED r \<and>
      KEY_CACHED l = KEY_CACHED r \<and> bkey_cmp l (START_KEY r) = 0 \<and>
      (\<forall>i<KEY_PTRS l. ptr r i = ptr l i + PTR 0 (ucast (KEY_SIZE l)) 0 \<and>
                      PTR_BUCKET_NR c l i = PTR_BUCKET_NR c r i) \<and>
      unat (KEY_SIZE l) + unat (KEY_SIZE r) > USHRT_MAX)"
proof -
  have a: "key_merging_disabled c \<or> KEY_PTRS l \<noteq> KEY_PTRS r \<or> KEY_DELETED l \<noteq> KEY_DELETED r \<or>
    KEY_CACHED l \<noteq> KEY_CACHED r \<or> bkey_cmp l (START_KEY r) \<noteq> 0 \<or>
    (\<exists>i<KEY_PTRS l. ptr r i \<noteq> ptr l i + PTR 0 (ucast (KEY_SIZE l)) 0 \<or>
                    PTR_BUCKET_NR c l i \<noteq> PTR_BUCKET_NR c r i)
      \<Longrightarrow> bch_extent_merge c l r = Some (False, l, r)"
    by (auto simp: bch_extent_merge_def list_ex_iff)
  have b: "bch_extent_merge c l r = Some (False, l', r') \<and> (l' \<noteq> l \<or> r' \<noteq> r) \<Longrightarrow>
      \<not> key_merging_disabled c \<and> KEY_PTRS l = KEY_PTRS r \<and>
      KEY_DELETED l = KEY_DELETED r \<and>
      KEY_CACHED l = KEY_CACHED r \<and> bkey_cmp l (START_KEY r) = 0 \<and>
      (\<forall>i<KEY_PTRS l. ptr r i = ptr l i + PTR 0 (ucast (KEY_SIZE l)) 0 \<and>
                      PTR_BUCKET_NR c l i = PTR_BUCKET_NR c r i) \<and>
      unat (KEY_SIZE l) + unat (KEY_SIZE r) > USHRT_MAX" for l' r'
    by (auto simp: bch_extent_merge_def list_ex_iff Let_def split: if_splits)
  show ?thesis
    using a b by blast
qed

text \<open>The witness: extents that do not touch (100 is not where the second starts).\<close>

theorem C10_merge_refusal_frame_witness:
  "bkey_cmp (ex_bare 100 50 0 0) (START_KEY (ex_bare 180 30 0 0)) \<noteq> 0 \<and>
   bch_extent_merge (ex_cache_set False) (ex_bare 100 50 0 0) (ex_bare 180 30 0 0) =
     Some (False, ex_bare 100 50 0 0, ex_bare 180 30 0 0)"
proof -
  have "bkey_cmp (ex_bare 100 50 0 0) (START_KEY (ex_bare 180 30 0 0)) \<noteq> 0"
    by (simp add: bkey_cmp_simps ex_bare_def KEY_START_def)
  then show ?thesis
    using C10_merge_refusal_frame[of "ex_cache_set False" "ex_bare 100 50 0 0"
        "ex_bare 180 30 0 0"]
    by blast
qed

section \<open>Claims about the merge of extents\<close>

text \<open>
  C1, as the code has it. The runs are well formed (\<open>ext_inv\<close>): every pending key has
  \<open>size \<le> offset\<close>, in each run every key ends at or before the start of the next, the
  cursors stand on disjoint stretches of the key array and are heap-ordered by
  \<open>bch_extent_sort_cmp\<close>. Then the merge with \<open>bch_extent_sort_fixup\<close> returns, and of any
  two emitted extents the earlier ends at or before the start of the later: the
  half-open ranges are pairwise disjoint.
\<close>

theorem C1_overlap_free:
  assumes "ext_inv m iter"
  shows "\<exists>out. emit_extents (m, iter) = Some out \<and>
           (\<forall>i j. i < j \<and> j < length out \<longrightarrow>
              kend (snd (out ! i)) \<le> kstart (snd (out ! j)) \<and>
              range_of (snd (out ! i)) \<inter> range_of (snd (out ! j)) = {})"
proof -
  have "low 0 m iter" by (simp add: low_def)
  from emit_chain[OF assms this]
  obtain out where o: "emit_extents (m, iter) = Some out" "chain 0 out" by blast
  have "kend (snd (out ! i)) \<le> kstart (snd (out ! j)) \<and>
        range_of (snd (out ! i)) \<inter> range_of (snd (out ! j)) = {}"
    if "i < j" "j < length out" for i j
    using chain_sorted[OF o(2) that] by (simp add: range_disjoint_iff)
  with o(1) show ?thesis by blast
qed

text \<open>The two example runs are well formed, and their merge is overlap-free.\<close>

theorem C1_overlap_free_witness:
  "ext_inv (fst ex_two_runs) (snd ex_two_runs) \<and>
   (\<exists>out. emit_extents ex_two_runs = Some out \<and>
      (\<forall>i j. i < j \<and> j < length out \<longrightarrow>
         kend (snd (out ! i)) \<le> kstart (snd (out ! j)) \<and>
         range_of (snd (out ! i)) \<inter> range_of (snd (out ! j)) = {}))"
  using C1_overlap_free[of "fst ex_two_runs" "snd ex_two_runs"] ex_two_runs_inv
  by (simp add: case_prod_beta)

text \<open>
  C1 as stated, for every set of runs, fails on a run that overlaps itself: the fixup
  loop only runs while more than one cursor remains, so the one run \<open>[0, 10)\<close>,
  \<open>[5, 15)\<close> is emitted as it is.
\<close>

theorem C1_overlapping_run_counterexample:
  "emitted (emit_extents ex_overlapping_run) = Some [(0, 0, 10, 1), (1, 5, 15, 1)]"
  by code_simp




text \<open>
  The overlap of a newer key at or below the address matters also when that key starts
  before the key it overlaps. In the five chained runs no newer key starts inside
  \<open>[5, 100)\<close>; but \<open>[0, 50)\<close> is cut in front at 20 by \<open>[0, 20)\<close>, and then cuts
  \<open>[5, 100)\<close> back to \<open>[5, 20)\<close>: address 70 is emitted from the oldest run.
\<close>

lemma chain_runs_lose_address:
  "ext_inv (fst ex_chain_runs) (snd ex_chain_runs) \<and>
   70 \<in> range_of (fst ex_chain_runs ! 0) \<inter> range_of (fst ex_chain_runs ! 1) \<and>
   emitted (emit_extents ex_chain_runs) =
     Some [(3, 0, 3, 4), (4, 3, 4, 5), (1, 5, 20, 2), (2, 20, 50, 3), (0, 60, 100, 1)]"
proof -
  have "ext_inv (fst ex_chain_runs) (snd ex_chain_runs)"
    using ex_chain_runs_inv by (simp add: case_prod_beta)
  moreover have "70 \<in> range_of (fst ex_chain_runs ! 0) \<inter> range_of (fst ex_chain_runs ! 1)"
    by (simp add: ex_chain_runs_def range_of_def ex_key_defs)
  moreover have "emitted (emit_extents ex_chain_runs) =
      Some [(3, 0, 3, 4), (4, 3, 4, 5), (1, 5, 20, 2), (2, 20, 50, 3), (0, 60, 100, 1)]"
    by code_simp
  ultimately show ?thesis by simp
qed

text \<open>
  C5, as the code has it. The loop first tests whether the top key ends at or before
  the start of the second key, and stops if so; only then does it look at the size. So,
  on well-formed runs, a size-0 key in the heap's second position is dropped, and is
  never emitted, when the top key ends after its start; when the top key ends at or
  before its start the loop returns with the state as it was, the key still pending.
\<close>

theorem C5_zero_size_drop:
  assumes "ext_inv m iter" and "1 < length iter"
    and "t = set_k (iter ! 0)" and "q = set_k (iter ! second m iter)"
    and "KEY_SIZE (m ! q) = 0"
  shows "(kstart (m ! q) < kend (m ! t) \<longrightarrow>
            (\<exists>out. emit_extents (m, iter) = Some out \<and> q \<notin> fst ` set out)) \<and>
         (kend (m ! t) \<le> kstart (m ! q) \<longrightarrow>
            bch_extent_sort_fixup (m, iter) = Some (m, iter))"
proof (intro conjI impI)
  assume ov: "kstart (m ! q) < kend (m ! t)"
  have sr: "0 < second m iter" "second m iter < length iter"
    using second_range[OF assms(2)] by simp_all
  from fixup_step[OF assms(1,2)]
  show "\<exists>out. emit_extents (m, iter) = Some out \<and> q \<notin> fst ` set out"
  proof
    assume "bch_extent_sort_fixup (m, iter) = Some (m, iter) \<and> settled m iter"
    then have "kend (m ! t) \<le> kstart (m ! q)" using sr assms(3,4) by (simp add: settled_def)
    with ov show ?thesis by simp
  next
    assume "\<exists>m' iter'. ext_step m iter m' iter' \<and> ext_inv m' iter' \<and> iter' \<noteq> [] \<and>
            iter' ! 0 = iter ! 0 \<and>
            bch_extent_sort_fixup (m, iter) = bch_extent_sort_fixup (m', iter') \<and>
            ((m', iter'), (m, iter)) \<in> fixup_rel"
    then obtain m' iter' where s: "ext_step m iter m' iter'" "ext_inv m' iter'" "iter' \<noteq> []"
      "bch_extent_sort_fixup (m, iter) = bch_extent_sort_fixup (m', iter')"
      by blast
    from ext_step_size0[OF assms(1,2) s(1)] assms(4,5)
    have "segs iter' = segs iter - {q}" by simp
    then have "within (segs iter - {q}) m' iter'" by (simp add: within_def)
    from emit_within[OF s(2) this]
    obtain out where "emit_extents (m', iter') = Some out" "fst ` set out \<subseteq> segs iter - {q}"
      by blast
    moreover have "iter \<noteq> []" using assms(2) by auto
    ultimately show ?thesis using emit_cong[OF _ s(3,4)] by auto
  qed
next
  assume no: "kend (m ! t) \<le> kstart (m ! q)"
  from fixup_step[OF assms(1,2)]
  show "bch_extent_sort_fixup (m, iter) = Some (m, iter)"
  proof
    assume "bch_extent_sort_fixup (m, iter) = Some (m, iter) \<and> settled m iter"
    then show ?thesis by simp
  next
    assume "\<exists>m' iter'. ext_step m iter m' iter' \<and> ext_inv m' iter' \<and> iter' \<noteq> [] \<and>
            iter' ! 0 = iter ! 0 \<and>
            bch_extent_sort_fixup (m, iter) = bch_extent_sort_fixup (m', iter') \<and>
            ((m', iter'), (m, iter)) \<in> fixup_rel"
    then obtain m' iter' where "ext_step m iter m' iter'" by blast
    then have "kstart (m ! q) < kend (m ! t)"
      using assms(3,4) by cases simp_all
    with no show ?thesis by simp
  qed
qed

text \<open>A size-0 key at 50 under the top key \<open>[0, 100)\<close> is skipped.\<close>

theorem C5_zero_size_drop_witness:
  "ext_inv (fst (ex_tombstone 50)) (snd (ex_tombstone 50)) \<and>
   second (fst (ex_tombstone 50)) (snd (ex_tombstone 50)) = 1 \<and>
   KEY_SIZE (fst (ex_tombstone 50) ! 1) = 0 \<and>
   (\<exists>out. emit_extents (ex_tombstone 50) = Some out \<and> 1 \<notin> fst ` set out) \<and>
   emitted (emit_extents (ex_tombstone 50)) = Some [(0, 0, 100, 1), (2, 600, 700, 3)]"
proof -
  let ?m = "fst (ex_tombstone 50)" and ?iter = "snd (ex_tombstone 50)"
  have 1: "ext_inv ?m ?iter" using ex_tombstone_50_inv by (simp add: case_prod_beta)
  have 2: "1 < length ?iter" by (simp add: ex_tombstone_def)
  have 3: "second ?m ?iter = 1" by (simp add: ex_tombstone_def second_def ex_key_defs)
  have 4: "0 = set_k (?iter ! 0)" "1 = set_k (?iter ! second ?m ?iter)"
    unfolding 3 by (simp_all add: ex_tombstone_def cur_def)
  have 5: "KEY_SIZE (?m ! 1) = 0" by (simp add: ex_tombstone_def ex_key_def)
  have 6: "kstart (?m ! 1) < kend (?m ! 0)" by (simp add: ex_tombstone_def ex_key_defs)
  have 7: "emitted (emit_extents (ex_tombstone 50)) = Some [(0, 0, 100, 1), (2, 600, 700, 3)]"
    by code_simp
  from C5_zero_size_drop[OF 1 2 4 5] 6
  have "\<exists>out. emit_extents (?m, ?iter) = Some out \<and> 1 \<notin> fst ` set out" by simp
  with 1 3 5 7 show ?thesis by simp
qed

text \<open>
  C5 as stated fails at its own example: the size-0 key \<open>{offset: 500, size: 0}\<close> is in
  the heap's second position, the top key \<open>[0, 100)\<close> ends before it, and it is emitted.
\<close>

theorem C5_tombstone_emitted_counterexample:
  "ext_inv (fst (ex_tombstone 500)) (snd (ex_tombstone 500)) \<and>
   second (fst (ex_tombstone 500)) (snd (ex_tombstone 500)) = 1 \<and>
   set_k (snd (ex_tombstone 500) ! 1) = 1 \<and>
   KEY_OFFSET (fst (ex_tombstone 500) ! 1) = 500 \<and> KEY_SIZE (fst (ex_tombstone 500) ! 1) = 0 \<and>
   emitted (emit_extents (ex_tombstone 500)) =
     Some [(0, 0, 100, 1), (1, 500, 500, 2), (2, 600, 700, 3)]"
proof -
  let ?m = "fst (ex_tombstone 500)" and ?iter = "snd (ex_tombstone 500)"
  have 1: "ext_inv ?m ?iter" using ex_tombstone_500_inv by (simp add: case_prod_beta)
  have 3: "second ?m ?iter = 1" by (simp add: ex_tombstone_def second_def ex_key_defs)
  have 4: "set_k (?iter ! 1) = 1" by (simp add: ex_tombstone_def cur_def)
  have 5: "KEY_OFFSET (?m ! 1) = 500" "KEY_SIZE (?m ! 1) = 0"
    by (simp_all add: ex_tombstone_def ex_key_def)
  have 7: "emitted (emit_extents (ex_tombstone 500)) =
      Some [(0, 0, 100, 1), (1, 500, 500, 2), (2, 600, 700, 3)]"
    by code_simp
  from 1 3 4 5 7 show ?thesis by simp
qed

text \<open>
  C6: the emitted sequence, taken as one run, goes through \<open>bch_extent_sort_fixup\<close>
  unchanged (key array and heap are returned as they were), and the merge emits every
  key of it unmodified, in order, at its own address.
\<close>

theorem C6_idempotent:
  assumes "emit_extents (m, iter) = Some out" and "ks = map snd out"
  shows "bch_extent_sort_fixup (ks, single_run ks) = Some (ks, single_run ks) \<and>
         emit_extents (ks, single_run ks) = Some (zip [0..<length ks] ks)"
proof (cases "ks = []")
  case True
  then show ?thesis by (simp add: single_run_def fixup_short emit_empty)
next
  case False
  then show ?thesis using emit_single[of 0 ks] by (simp add: single_run_def fixup_short)
qed

text \<open>The merge of the two example runs, emitted again as one run.\<close>

theorem C6_idempotent_witness:
  "\<exists>out. emit_extents ex_two_runs = Some out \<and>
     bch_extent_sort_fixup (map snd out, single_run (map snd out)) =
       Some (map snd out, single_run (map snd out)) \<and>
     emit_extents (map snd out, single_run (map snd out)) =
       Some (zip [0..<length (map snd out)] (map snd out))"
proof -
  have "ext_inv (fst ex_two_runs) (snd ex_two_runs)"
    using ex_two_runs_inv by (simp add: case_prod_beta)
  moreover have "low 0 (fst ex_two_runs) (snd ex_two_runs)" by (simp add: low_def)
  ultimately obtain out where o: "emit_extents (fst ex_two_runs, snd ex_two_runs) = Some out"
    using emit_chain by blast
  from C6_idempotent[OF o refl] o show ?thesis by simp
qed

section \<open>Claims about the merge of pointer keys\<close>










end
